theory Spec2Isabelle
  imports Main
begin

section \<open>Python strings\<close>

text \<open>
  A Python \<^verbatim>\<open>str\<close> is a \<^typ>\<open>string\<close>; a \<^typ>\<open>char\<close> stands for a code point
  below 256. The functions below are the \<^verbatim>\<open>str\<close> methods that
  \<^verbatim>\<open>render_pretty_resume.py\<close> calls, with Python's behaviour on these code points.
\<close>

definition isspace :: "char \<Rightarrow> bool" where
  "isspace c \<longleftrightarrow>
     c \<in> {CHR 0x09, CHR 0x0A, CHR 0x0B, CHR 0x0C, CHR 0x0D, CHR 0x1C, CHR 0x1D, CHR 0x1E,
          CHR 0x1F, CHR 0x20, CHR 0x85, CHR 0xA0}"

definition lstrip_chars :: "(char \<Rightarrow> bool) \<Rightarrow> string \<Rightarrow> string" where
  "lstrip_chars P s = dropWhile P s"

definition rstrip_chars :: "(char \<Rightarrow> bool) \<Rightarrow> string \<Rightarrow> string" where
  "rstrip_chars P s = rev (dropWhile P (rev s))"

definition strip_chars :: "(char \<Rightarrow> bool) \<Rightarrow> string \<Rightarrow> string" where
  "strip_chars P s = rstrip_chars P (lstrip_chars P s)"

text \<open>\<^verbatim>\<open>s.strip()\<close>\<close>

definition strip :: "string \<Rightarrow> string" where
  "strip s = strip_chars isspace s"

text \<open>\<^verbatim>\<open>s.strip("*")\<close> and \<^verbatim>\<open>s.rstrip("\\")\<close>\<close>

definition strip_stars :: "string \<Rightarrow> string" where
  "strip_stars s = strip_chars (\<lambda>c. c = CHR ''*'') s"

definition rstrip_backslash :: "string \<Rightarrow> string" where
  "rstrip_backslash s = rstrip_chars (\<lambda>c. c = CHR 0x5C) s"

definition startswith :: "string \<Rightarrow> string \<Rightarrow> bool" where
  "startswith p s \<longleftrightarrow> take (length p) s = p"

definition endswith :: "string \<Rightarrow> string \<Rightarrow> bool" where
  "endswith p s \<longleftrightarrow> length p \<le> length s \<and> drop (length s - length p) s = p"

text \<open>\<^verbatim>\<open>sub in s\<close>\<close>

fun contains :: "string \<Rightarrow> string \<Rightarrow> bool" where
  "contains sub [] = (sub = [])"
| "contains sub (c # cs) = (startswith sub (c # cs) \<or> contains sub cs)"

text \<open>\<^verbatim>\<open>s.find(sub)\<close>: the lowest index of an occurrence, or -1.\<close>

fun find_str :: "string \<Rightarrow> string \<Rightarrow> int" where
  "find_str sub [] = (if sub = [] then 0 else - 1)"
| "find_str sub (c # cs) =
     (if startswith sub (c # cs) then 0
      else (let r = find_str sub cs in if r < 0 then - 1 else r + 1))"

text \<open>\<^verbatim>\<open>s.replace(old, new)\<close>: every occurrence, left to right, without overlap.\<close>

function replace :: "string \<Rightarrow> string \<Rightarrow> string \<Rightarrow> string" where
  "replace old new s =
     (if old = [] then new @ concat (map (\<lambda>c. c # new) s)
      else if s = [] then []
      else if startswith old s then new @ replace old new (drop (length old) s)
      else hd s # replace old new (tl s))"
  by pat_completeness auto
termination
  by (relation "measure (\<lambda>(old, new, s). length s)") auto

definition lower_char :: "char \<Rightarrow> char" where
  "lower_char c =
     (let n = (of_char c :: nat)
      in if (65 \<le> n \<and> n \<le> 90) \<or> (192 \<le> n \<and> n \<le> 222 \<and> n \<noteq> 215)
         then char_of (n + 32) else c)"

definition lower :: "string \<Rightarrow> string" where
  "lower s = map lower_char s"

text \<open>\<^verbatim>\<open>sep.join(parts)\<close>\<close>

fun join :: "string \<Rightarrow> string list \<Rightarrow> string" where
  "join sep [] = []"
| "join sep [x] = x"
| "join sep (x # y # ys) = x @ sep @ join sep (y # ys)"

text \<open>
  \<^verbatim>\<open>s.splitlines()\<close>: a line ends at LF, VT, FF, CR, CR LF, FS, GS, RS or NEL; the
  breaks are dropped and a final break opens no empty line.
\<close>

definition is_linebreak :: "char \<Rightarrow> bool" where
  "is_linebreak c \<longleftrightarrow>
     c \<in> {CHR 0x0A, CHR 0x0B, CHR 0x0C, CHR 0x0D, CHR 0x1C, CHR 0x1D, CHR 0x1E, CHR 0x85}"

fun splitlines_from :: "string \<Rightarrow> string \<Rightarrow> string list" where
  "splitlines_from cur [] = (if cur = [] then [] else [cur])"
| "splitlines_from cur [c] = (if is_linebreak c then [cur] else [cur @ [c]])"
| "splitlines_from cur (c # c' # cs) =
     (if c = CHR 0x0D \<and> c' = CHR 0x0A then cur # splitlines_from [] cs
      else if is_linebreak c then cur # splitlines_from [] (c' # cs)
      else splitlines_from (cur @ [c]) (c' # cs))"

definition splitlines :: "string \<Rightarrow> string list" where
  "splitlines s = splitlines_from [] s"

text \<open>
  \<^verbatim>\<open>html.escape(s)\<close> with its default \<^verbatim>\<open>quote=True\<close>: the five characters
  \<^verbatim>\<open>& < > " '\<close> become entities, every other character stays.
\<close>

definition escape_char :: "char \<Rightarrow> string" where
  "escape_char c =
     (if c = CHR ''&'' then ''&amp;''
      else if c = CHR ''<'' then ''&lt;''
      else if c = CHR ''>'' then ''&gt;''
      else if c = CHR 0x22 then ''&quot;''
      else if c = CHR 0x27 then ''&#x27;''
      else [c])"

definition html_escape :: "string \<Rightarrow> string" where
  "html_escape s = concat (map escape_char s)"

section \<open>The resume record\<close>

record item =
  title :: string
  meta :: string
  subtitle :: string
  bullets :: "string list"

record data =
  name :: string
  role :: string
  contacts :: "string list"
  summary :: string
  skills :: "string list"
  experience :: "item list"
  projects :: "item list"
  fit :: "string list"
  image_from_md :: string

text \<open>The dictionary \<^verbatim>\<open>parse_markdown\<close> starts from (lines 16-26).\<close>

definition empty_data :: data where
  "empty_data =
     \<lparr>name = [], role = [], contacts = [], summary = [], skills = [], experience = [],
      projects = [], fit = [], image_from_md = []\<rparr>"

section \<open>parse_markdown\<close>

datatype error = IndexError

text \<open>\<^verbatim>\<open>lines[i]\<close> for \<^verbatim>\<open>i >= 0\<close>: Python raises IndexError out of range.\<close>

definition getitem :: "'a list \<Rightarrow> nat \<Rightarrow> error + 'a" where
  "getitem xs i = (if i < length xs then Inr (xs ! i) else Inl IndexError)"

text \<open>
  The test of lines 31 and 45:
  \<^verbatim>\<open>s.startswith("![") and "](" in s and s.endswith(")")\<close>.
\<close>

definition is_image :: "string \<Rightarrow> bool" where
  "is_image s \<longleftrightarrow> startswith ''!['' s \<and> contains '']('' s \<and> endswith '')'' s"

text \<open>
  Line 32, \<^verbatim>\<open>s[s.find("(") + 1 : -1]\<close>. The start is never negative
  (\<^verbatim>\<open>find\<close> is at least -1), so the slice runs from it to the last character,
  which is left out.
\<close>

definition image_target :: "string \<Rightarrow> string" where
  "image_target s = drop (nat (find_str ''('' s + 1)) (take (length s - 1) s)"

text \<open>Lines 29-33: the first image line gives \<^verbatim>\<open>image_from_md\<close>.\<close>

fun find_image :: "string list \<Rightarrow> string" where
  "find_image [] = []"
| "find_image (line # rest) =
     (let s = strip line in if is_image s then image_target s else find_image rest)"

text \<open>Lines 70-71: \<^verbatim>\<open>while i < n and not lines[i].strip(): i += 1\<close>.\<close>

function skip_blank :: "string list \<Rightarrow> nat \<Rightarrow> error + nat" where
  "skip_blank lines i =
     (if i < length lines then
        (case getitem lines i of
           Inl e \<Rightarrow> Inl e
         | Inr l \<Rightarrow> if strip l = [] then skip_blank lines (i + 1) else Inr i)
      else Inr i)"
  by pat_completeness auto
termination
  by (relation "measure (\<lambda>(lines, i). length lines - i)") auto

text \<open>Lines 72-74: the meta line, and the index after it.\<close>

definition item_meta :: "string list \<Rightarrow> nat \<Rightarrow> error + (nat \<times> string)" where
  "item_meta lines i =
     (if i < length lines then
        (case getitem lines i of
           Inl e \<Rightarrow> Inl e
         | Inr l \<Rightarrow>
             if startswith ''**'' (strip l)
             then Inr (i + 1, strip (replace ''**'' [] (strip l)))
             else Inr (i, []))
      else Inr (i, []))"

text \<open>Lines 75-77: the subtitle line, and the index after it.\<close>

definition item_subtitle :: "string list \<Rightarrow> nat \<Rightarrow> error + (nat \<times> string)" where
  "item_subtitle lines i =
     (if i < length lines then
        (case getitem lines i of
           Inl e \<Rightarrow> Inl e
         | Inr l \<Rightarrow>
             if strip l \<noteq> [] \<and> \<not> startswith ''-'' (strip l) \<and> \<not> startswith ''## '' (strip l)
             then Inr (i + 1, strip l)
             else Inr (i, []))
      else Inr (i, []))"

text \<open>Lines 78-87: the bullets, up to the next second- or third-level heading.\<close>

function collect_bullets :: "string list \<Rightarrow> nat \<Rightarrow> string list \<Rightarrow> error + (nat \<times> string list)" where
  "collect_bullets lines i bs =
     (if i < length lines then
        (case getitem lines i of
           Inl e \<Rightarrow> Inl e
         | Inr l \<Rightarrow>
             (let s = strip l in
              if s = [] then collect_bullets lines (i + 1) bs
              else if startswith ''## '' s \<or> startswith ''### '' s then Inr (i, bs)
              else if startswith ''- '' s then collect_bullets lines (i + 1) (bs @ [strip (drop 2 s)])
              else collect_bullets lines (i + 1) bs))
      else Inr (i, bs))"
  by pat_completeness auto
termination
  by (relation "measure (\<lambda>(lines, i, bs). length lines - i)") auto

text \<open>
  Lines 65-88: the Item that starts at the third-level heading \<open>line\<close> at index \<open>i\<close>,
  and the index of the first line after it.
\<close>

definition parse_item :: "string list \<Rightarrow> nat \<Rightarrow> string \<Rightarrow> error + (nat \<times> item)" where
  "parse_item lines i line =
     (case skip_blank lines (i + 1) of
        Inl e \<Rightarrow> Inl e
      | Inr i1 \<Rightarrow>
     (case item_meta lines i1 of
        Inl e \<Rightarrow> Inl e
      | Inr (i2, m) \<Rightarrow>
     (case item_subtitle lines i2 of
        Inl e \<Rightarrow> Inl e
      | Inr (i3, sub) \<Rightarrow>
     (case collect_bullets lines i3 [] of
        Inl e \<Rightarrow> Inl e
      | Inr (i4, bs) \<Rightarrow>
          Inr (i4, \<lparr>title = strip (drop 4 line), meta = m, subtitle = sub, bullets = bs\<rparr>)))))"

text \<open>Lines 99-101: the rest of a summary run.\<close>

function collect_summary :: "string list \<Rightarrow> nat \<Rightarrow> string list \<Rightarrow> error + (nat \<times> string list)" where
  "collect_summary lines i parts =
     (if i < length lines then
        (case getitem lines i of
           Inl e \<Rightarrow> Inl e
         | Inr l \<Rightarrow>
             if strip l \<noteq> [] \<and> \<not> startswith ''## '' (strip l)
             then collect_summary lines (i + 1) (parts @ [strip l])
             else Inr (i, parts))
      else Inr (i, parts))"
  by pat_completeness auto
termination
  by (relation "measure (\<lambda>(lines, i, parts). length lines - i)") auto

text \<open>Lines 89-92: where a parsed Item goes.\<close>

definition add_item :: "string \<Rightarrow> item \<Rightarrow> data \<Rightarrow> data" where
  "add_item current_section it d =
     (if contains ''project'' current_section \<or> contains ''highlight'' current_section
      then d\<lparr>projects := projects d @ [it]\<rparr>
      else d\<lparr>experience := experience d @ [it]\<rparr>)"

text \<open>Lines 116-118: a contact line.\<close>

definition add_contact :: "string \<Rightarrow> string \<Rightarrow> data \<Rightarrow> data" where
  "add_contact current_section line d =
     (if current_section = [] \<and> line \<noteq> [] \<and> \<not> startswith ''#'' line then
        (if line \<notin> set (contacts d) then d\<lparr>contacts := contacts d @ [rstrip_backslash line]\<rparr>
         else d)
      else d)"

text \<open>
  Lines 39-119: one turn of the main loop at index \<open>i\<close>, in section
  \<open>current_section\<close>, with the record \<open>d\<close>: the next index, section and record.
\<close>

definition loop_body :: "string list \<Rightarrow> nat \<Rightarrow> string \<Rightarrow> data \<Rightarrow> error + (nat \<times> string \<times> data)" where
  "loop_body lines i current_section d =
     (case getitem lines i of
        Inl e \<Rightarrow> Inl e
      | Inr raw \<Rightarrow>
          (let line = strip raw in
           if line = [] then Inr (i + 1, current_section, d)
           else if is_image line then Inr (i + 1, current_section, d)
           else if startswith ''# '' line \<and> name d = [] then
             Inr (i + 1, current_section, d\<lparr>name := strip (drop 2 line)\<rparr>)
           else if startswith ''**'' line \<and> endswith ''**'' line \<and> role d = [] then
             Inr (i + 1, current_section, d\<lparr>role := strip (strip_stars line)\<rparr>)
           else if startswith ''## '' line then
             Inr (i + 1, lower (strip (drop 3 line)), d)
           else if startswith ''### '' line then
             (case parse_item lines i line of
                Inl e \<Rightarrow> Inl e
              | Inr (i', it) \<Rightarrow> Inr (i', current_section, add_item current_section it d))
           else if current_section = ''professional summary'' then
             (case collect_summary lines (i + 1) [line] of
                Inl e \<Rightarrow> Inl e
              | Inr (i', parts) \<Rightarrow>
                  Inr (i', current_section, d\<lparr>summary := strip (join '' '' parts)\<rparr>))
           else if current_section = ''core skills'' \<and> startswith ''- '' line then
             Inr (i + 1, current_section, d\<lparr>skills := skills d @ [strip (drop 2 line)]\<rparr>)
           else if contains ''role alignment'' current_section \<and> startswith ''- '' line then
             Inr (i + 1, current_section, d\<lparr>fit := fit d @ [strip (drop 2 line)]\<rparr>)
           else Inr (i + 1, current_section, add_contact current_section line d)))"

text \<open>Lines 38-121: the main loop, from index \<open>i\<close> to the end of the lines.\<close>

function parse_loop :: "string list \<Rightarrow> nat \<Rightarrow> string \<Rightarrow> data \<Rightarrow> error + data" where
  "parse_loop lines i current_section d =
     (if i < length lines then
        (case loop_body lines i current_section d of
           Inl e \<Rightarrow> Inl e
         | Inr (i', current_section', d') \<Rightarrow> parse_loop lines i' current_section' d')
      else Inr d)"
  by pat_completeness auto

definition parse_markdown :: "string \<Rightarrow> error + data" where
  "parse_markdown md_text =
     (let lines = splitlines md_text
      in parse_loop lines 0 [] (empty_data\<lparr>image_from_md := find_image lines\<rparr>))"

section \<open>build_html\<close>

text \<open>
  The literal text of the two templates, cut at the interpolations (lines 132-141 and
  152-220); a doubled brace of the f-string is one brace.
\<close>

definition tpl_open :: string where
  "tpl_open =
     ''<!doctype html>\<newline>'' @
     ''<html lang=\"en\">\<newline>'' @
     ''<head>\<newline>'' @
     ''  <meta charset=\"utf-8\" />\<newline>'' @
     ''  <meta name=\"viewport\" content=\"width=device-width, initial-scale=1\" />\<newline>'' @
     ''  <title>''"

definition tpl_style :: string where
  "tpl_style =
     '' - Resume</title>\<newline>'' @
     ''  <style>\<newline>'' @
     ''    @page { size: A4; margin: 0; }\<newline>'' @
     ''    :root {\<newline>'' @
     ''      --ink: #132033; --muted: #5a6a7d; --line: #d8e0ea; --panel: #edf3fb;\<newline>'' @
     ''      --accent: #0f4c81;\<newline>'' @
     ''    }\<newline>'' @
     ''    * { box-sizing: border-box; }\<newline>'' @
     ''    body { margin: 0; font-family: \"Avenir Next\", \"Segoe UI\", \"Trebuchet MS\", sans-serif; color: var(--ink); }\<newline>'' @
     ''    .page { width: 210mm; min-height: 297mm; display: grid; grid-template-columns: 68mm 1fr; }\<newline>'' @
     ''    .left { background: linear-gradient(180deg, #0f4c81 0%, #0e3e67 55%, #102f4d 100%); color: #f6f9fd; padding: 14mm 8mm 12mm; }\<newline>'' @
     ''    .right { padding: 13mm 12mm 12mm; }\<newline>'' @
     ''    .photo { width: 36mm; height: 36mm; margin: 0 auto 6mm; border-radius: 50%; overflow: hidden; border: 2.5mm solid rgba(255,255,255,0.25); background: #fff; }\<newline>'' @
     ''    .photo img { width: 100%; height: 100%; object-fit: cover; display: block; }\<newline>'' @
     ''    .name { text-align: center; margin: 0; font-size: 20px; line-height: 1.15; font-weight: 700; }\<newline>'' @
     ''    .role { text-align: center; margin: 2.5mm 0 8mm; font-size: 10.5px; line-height: 1.35; color: #dce8f6; font-weight: 600; }\<newline>'' @
     ''    .left h3 { margin: 8mm 0 3mm; font-size: 10px; text-transform: uppercase; letter-spacing: 1px; color: #b9d7f3; border-top: 0.3mm solid rgba(255,255,255,0.2); padding-top: 2.3mm; }\<newline>'' @
     ''    .left p, .left li, .left a { font-size: 9.2px; line-height: 1.45; margin: 0; color: #f2f7fc; text-decoration: none; word-break: break-word; }\<newline>'' @
     ''    .contact-list { display: grid; gap: 2.2mm; }\<newline>'' @
     ''    .left ul { margin: 1mm 0 0; padding-left: 3.8mm; }\<newline>'' @
     ''    .skills-list { margin-top: 1.6mm; display: grid; gap: 1.6mm; }\<newline>'' @
     ''    .skills-list li { font-size: 8.8px; line-height: 1.25; }\<newline>'' @
     ''    .headline { display: flex; justify-content: space-between; align-items: baseline; gap: 5mm; margin-bottom: 4mm; }\<newline>'' @
     ''    .headline h1 { margin: 0; font-size: 25px; line-height: 1.05; color: var(--accent); }\<newline>'' @
     ''    .headline .target { margin: 0; font-size: 10px; color: var(--muted); text-align: right; font-weight: 600; }\<newline>'' @
     ''    .summary { background: var(--panel); border-left: 1.2mm solid var(--accent); border-radius: 1.2mm; padding: 3.3mm 3.6mm; font-size: 10.2px; line-height: 1.5; margin-bottom: 5.4mm; }\<newline>'' @
     ''    .section { margin-bottom: 5.2mm; }\<newline>'' @
     ''    .section h2 { margin: 0 0 2.8mm; font-size: 11px; text-transform: uppercase; letter-spacing: 1px; color: var(--accent); border-bottom: 0.35mm solid var(--line); padding-bottom: 1.5mm; }\<newline>'' @
     ''    .item { margin-bottom: 3.1mm; }\<newline>'' @
     ''    .row { display: flex; justify-content: space-between; align-items: baseline; gap: 4mm; }\<newline>'' @
     ''    .row .title { font-size: 11px; font-weight: 700; color: #10253a; }\<newline>'' @
     ''    .row .meta { font-size: 9px; color: var(--muted); white-space: nowrap; font-weight: 600; }\<newline>'' @
     ''    .sub { margin-top: 0.7mm; font-size: 9.6px; color: #30435a; font-weight: 600; }\<newline>'' @
     ''    ul.points { margin: 1.4mm 0 0; padding-left: 4.3mm; }\<newline>'' @
     ''    ul.points li { font-size: 9.5px; line-height: 1.45; margin-bottom: 1.2mm; }\<newline>'' @
     ''    .fit-box { display: grid; grid-template-columns: 1fr 1fr; gap: 2.2mm; }\<newline>'' @
     ''    .fit { background: #f8fbff; border: 0.3mm solid var(--line); border-radius: 1.2mm; padding: 2.4mm 2.8mm; font-size: 9.2px; line-height: 1.4; }\<newline>'' @
     ''    .fit strong { display: block; color: var(--accent); margin-bottom: 0.7mm; font-size: 9.3px; text-transform: uppercase; letter-spacing: 0.4px; }\<newline>'' @
     ''  </style>\<newline>'' @
     ''</head>\<newline>'' @
     ''<body>\<newline>'' @
     ''  <main class=\"page\">\<newline>'' @
     ''    <aside class=\"left\">\<newline>'' @
     ''      <div class=\"photo\"><img src=\"''"

definition tpl_photo_alt :: string where
  "tpl_photo_alt =
     ''\" alt=\"''"

definition tpl_photo_close :: string where
  "tpl_photo_close =
     ''\" /></div>\<newline>'' @
     ''      <h2 class=\"name\">''"

definition tpl_name_close :: string where
  "tpl_name_close =
     ''</h2>\<newline>'' @
     ''      <p class=\"role\">''"

definition tpl_role_close :: string where
  "tpl_role_close =
     ''</p>\<newline>'' @
     ''      <h3>Contact</h3>\<newline>'' @
     ''      <div class=\"contact-list\">''"

definition tpl_contacts_close :: string where
  "tpl_contacts_close =
     ''</div>\<newline>'' @
     ''      <h3>Core Skills</h3>\<newline>'' @
     ''      <ul class=\"skills-list\">''"

definition tpl_headline :: string where
  "tpl_headline =
     ''</ul>\<newline>'' @
     ''    </aside>\<newline>'' @
     ''    <section class=\"right\">\<newline>'' @
     ''      <div class=\"headline\">\<newline>'' @
     ''        <h1>iOS Engineer Resume</h1>\<newline>'' @
     ''        ''"

definition tpl_headline_close :: string where
  "tpl_headline_close =
     ''\<newline>'' @
     ''      </div>\<newline>'' @
     ''      <div class=\"summary\">''"

definition tpl_summary_close :: string where
  "tpl_summary_close =
     ''</div>\<newline>'' @
     ''      <div class=\"section\"><h2>Professional Experience</h2>''"

definition tpl_experience_close :: string where
  "tpl_experience_close =
     ''</div>\<newline>'' @
     ''      <div class=\"section\"><h2>Selected Project Highlights</h2>''"

definition tpl_projects_close :: string where
  "tpl_projects_close =
     ''</div>\<newline>'' @
     ''      <div class=\"section\"><h2>Role Fit</h2><div class=\"fit-box\">''"

definition tpl_close :: string where
  "tpl_close =
     ''</div></div>\<newline>'' @
     ''    </section>\<newline>'' @
     ''  </main>\<newline>'' @
     ''</body>\<newline>'' @
     ''</html>''"

definition item_open :: string where
  "item_open =
     ''\<newline>'' @
     ''            <div class=\"item\">\<newline>'' @
     ''              <div class=\"row\">\<newline>'' @
     ''                <div class=\"title\">''"

definition item_title_close :: string where
  "item_title_close =
     ''</div>\<newline>'' @
     ''                <div class=\"meta\">''"

definition item_meta_close :: string where
  "item_meta_close =
     ''</div>\<newline>'' @
     ''              </div>\<newline>'' @
     ''              ''"

definition item_sub_close :: string where
  "item_sub_close =
     ''\<newline>'' @
     ''              <ul class=\"points\">''"

definition item_close :: string where
  "item_close =
     ''</ul>\<newline>'' @
     ''            </div>\<newline>'' @
     ''            ''"

text \<open>Lines 124-125, \<^verbatim>\<open>_li\<close>.\<close>

definition li :: "string list \<Rightarrow> string" where
  "li xs = concat (map (\<lambda>x. ''<li>'' @ html_escape x @ ''</li>'') xs)"

text \<open>Lines 131-142: the block of one Item.\<close>

definition item_block :: "item \<Rightarrow> string" where
  "item_block it =
     item_open @ html_escape (title it) @ item_title_close @ html_escape (meta it) @
     item_meta_close @
     (if subtitle it \<noteq> [] then ''<p class='sub'>'' @ html_escape (subtitle it) @ ''</p>'' else []) @
     item_sub_close @ li (bullets it) @ item_close"

text \<open>Lines 128-143, \<^verbatim>\<open>_items\<close>: the blocks joined by a newline.\<close>

definition items :: "item list \<Rightarrow> string" where
  "items its = join ''\<newline>'' (map item_block its)"

text \<open>Lines 147-149 and 150.\<close>

definition fit_boxes :: "data \<Rightarrow> string" where
  "fit_boxes d =
     concat (map (\<lambda>point. ''<div class='fit'><strong>Fit</strong>'' @ html_escape point @ ''</div>'')
       (take 4 (fit d)))"

definition headline_right :: "string \<Rightarrow> string" where
  "headline_right target_label =
     (if target_label \<noteq> [] then ''<p class='target'>'' @ html_escape target_label @ ''</p>''
      else [])"

text \<open>Lines 146-220. Every key is present in a \<^typ>\<open>data\<close>, so no default of \<^verbatim>\<open>data.get\<close> is used.\<close>

definition build_html :: "data \<Rightarrow> string \<Rightarrow> string \<Rightarrow> string" where
  "build_html d profile_image target_label =
     tpl_open @ html_escape (name d) @
     tpl_style @ html_escape profile_image @
     tpl_photo_alt @ html_escape (name d) @
     tpl_photo_close @ html_escape (name d) @
     tpl_name_close @ html_escape (role d) @
     tpl_role_close @ concat (map (\<lambda>c. ''<p>'' @ html_escape c @ ''</p>'') (take 4 (contacts d))) @
     tpl_contacts_close @ li (take 12 (skills d)) @
     tpl_headline @ headline_right target_label @
     tpl_headline_close @ html_escape (summary d) @
     tpl_summary_close @ items (experience d) @
     tpl_experience_close @ items (projects d) @
     tpl_projects_close @ fit_boxes d @
     tpl_close"

section \<open>main\<close>

definition placeholder_image :: string where
  "placeholder_image = ''https://dummyimage.com/400x400/e6eef7/7f8fa3.jpg&text=Profile''"

text \<open>
  Lines 255-257: the image \<^verbatim>\<open>main\<close> passes to \<^verbatim>\<open>build_html\<close>;
  \<^verbatim>\<open>args.profile_image\<close> is \<^verbatim>\<open>None\<close> when the option is not given.
\<close>

definition select_profile_image :: "string option \<Rightarrow> data \<Rightarrow> string" where
  "select_profile_image arg parsed =
     (let profile_image =
        (case arg of
           Some a \<Rightarrow> if a \<noteq> [] then a else if image_from_md parsed \<noteq> [] then image_from_md parsed else []
         | None \<Rightarrow> if image_from_md parsed \<noteq> [] then image_from_md parsed else [])
      in if profile_image = [] then placeholder_image else profile_image)"

text \<open>Lines 252-259: the HTML text \<^verbatim>\<open>main\<close> writes for the markdown \<open>md_text\<close>.\<close>

definition main_html :: "string \<Rightarrow> string option \<Rightarrow> string \<Rightarrow> error + string" where
  "main_html md_text profile_image_arg target_label =
     (case parse_markdown md_text of
        Inl e \<Rightarrow> Inl e
      | Inr parsed \<Rightarrow>
          Inr (build_html parsed (select_profile_image profile_image_arg parsed) target_label))"

section \<open>Searching a text for a tag\<close>

text \<open>
  \<open>scan p r s\<close> reads \<open>s\<close> while looking for the pattern \<open>p\<close>, of which \<open>r\<close> is
  still to be matched; the result is what is still to be matched after \<open>s\<close>, and \<open>[]\<close>
  once \<open>p\<close> has been found. It is exact for a pattern whose first character does not
  occur again in it, such as a tag opened by \<^verbatim>\<open><\<close>.
\<close>

fun scan :: "string \<Rightarrow> string \<Rightarrow> string \<Rightarrow> string" where
  "scan p r [] = r"
| "scan p [] (c # cs) = []"
| "scan p (x # r) (c # cs) =
     (if c = x then scan p r cs else if c = hd p then scan p (tl p) cs else scan p p cs)"

text \<open>
  A text is free of the script tag when the search for \<^verbatim>\<open><script>\<close> ends it as it
  began: the text neither holds the tag nor ends inside a beginning of it.
\<close>

definition no_script :: "string \<Rightarrow> bool" where
  "no_script s \<longleftrightarrow> scan ''<script>'' ''<script>'' s = ''<script>''"

text \<open>
  The markup characters of a text, and a record with its text erased: every string is
  emptied, while the lengths of the lists and the presence of a subtitle stay.
\<close>

definition markup :: "string \<Rightarrow> string" where
  "markup s = filter (\<lambda>c. c = CHR ''<'' \<or> c = CHR ''>'' \<or> c = CHR 0x22 \<or> c = CHR 0x27) s"

definition erase_text :: "string \<Rightarrow> string" where
  "erase_text s = (if s = [] then [] else ''x'')"

definition erase_item :: "item \<Rightarrow> item" where
  "erase_item it =
     \<lparr>title = [], meta = [], subtitle = erase_text (subtitle it),
      bullets = map (\<lambda>b. []) (bullets it)\<rparr>"

definition erase_data :: "data \<Rightarrow> data" where
  "erase_data d =
     \<lparr>name = [], role = [], contacts = map (\<lambda>c. []) (contacts d), summary = [],
      skills = map (\<lambda>s. []) (skills d), experience = map erase_item (experience d),
      projects = map erase_item (projects d), fit = map (\<lambda>p. []) (fit d), image_from_md = []\<rparr>"

section \<open>Lines, runs and sections, in the words of the specification\<close>

text \<open>A blank line, and a heading of the first, second or third level (of a trimmed line).\<close>

definition is_blank :: "string \<Rightarrow> bool" where
  "is_blank l \<longleftrightarrow> strip l = []"

definition is_heading :: "string \<Rightarrow> bool" where
  "is_heading s \<longleftrightarrow> startswith ''# '' s \<or> startswith ''## '' s \<or> startswith ''### '' s"

text \<open>
  The Item that follows a third-level heading, read off the lines after the heading:
  blank lines are passed; a line that starts with the bold marker is the meta line; the
  line then at hand is the subtitle when it is not blank, does not start with
  \<^verbatim>\<open>-\<close> and is no heading; the bullets are the \<^verbatim>\<open>- \<close> lines up to the next
  heading of the second or third level. The second component counts the lines that
  belong to the Item.
\<close>

definition subtitle_candidate :: "string list \<Rightarrow> string option" where
  "subtitle_candidate following =
     (let rest0 = dropWhile is_blank following;
          rest1 = (if rest0 \<noteq> [] \<and> startswith ''**'' (strip (hd rest0)) then tl rest0 else rest0)
      in if rest1 = [] then None else Some (strip (hd rest1)))"

definition spec_item :: "string \<Rightarrow> string list \<Rightarrow> item \<times> nat" where
  "spec_item heading following =
     (let rest0 = dropWhile is_blank following;
          has_meta = (rest0 \<noteq> [] \<and> startswith ''**'' (strip (hd rest0)));
          rest1 = (if has_meta then tl rest0 else rest0);
          has_sub = (rest1 \<noteq> [] \<and> \<not> is_blank (hd rest1) \<and> \<not> startswith ''-'' (strip (hd rest1)) \<and>
                     \<not> is_heading (strip (hd rest1)));
          rest2 = (if has_sub then tl rest1 else rest1);
          body = takeWhile (\<lambda>l. \<not> startswith ''## '' (strip l) \<and> \<not> startswith ''### '' (strip l)) rest2
      in (\<lparr>title = strip (drop 4 heading),
           meta = (if has_meta then strip (replace ''**'' [] (strip (hd rest0))) else []),
           subtitle = (if has_sub then strip (hd rest1) else []),
           bullets = map (\<lambda>l. strip (drop 2 (strip l))) (filter (\<lambda>l. startswith ''- '' (strip l)) body)\<rparr>,
          length following - length rest2 + length body))"

text \<open>
  The section a line belongs to: the trimmed, lower-cased text of the last second-level
  heading among the lines before it, and the empty string when there is none.
\<close>

definition section_of :: "string list \<Rightarrow> string" where
  "section_of before =
     (case filter (\<lambda>l. startswith ''## '' (strip l)) before of
        [] \<Rightarrow> []
      | h # hs \<Rightarrow> lower (strip (drop 3 (strip (last (h # hs))))))"

definition project_section :: "string \<Rightarrow> bool" where
  "project_section s \<longleftrightarrow> contains ''project'' s \<or> contains ''highlight'' s"

text \<open>
  The Items the main loop parses from index \<open>i\<close> on, each with the index of its
  heading, in the order in which they are parsed.
\<close>

function item_events :: "string list \<Rightarrow> nat \<Rightarrow> string \<Rightarrow> data \<Rightarrow> (nat \<times> item) list" where
  "item_events lines i current_section d =
     (if i < length lines then
        (case loop_body lines i current_section d of
           Inl e \<Rightarrow> []
         | Inr (i', current_section', d') \<Rightarrow>
             (case parse_item lines i (strip (lines ! i)) of
                Inl e \<Rightarrow> []
              | Inr (j, it) \<Rightarrow> if startswith ''### '' (strip (lines ! i)) then [(i, it)] else []) @
             item_events lines i' current_section' d')
      else [])"
  by pat_completeness auto

definition parsed_items :: "string \<Rightarrow> (nat \<times> item) list" where
  "parsed_items md_text =
     (let lines = splitlines md_text
      in item_events lines 0 [] (empty_data\<lparr>image_from_md := find_image lines\<rparr>))"





text \<open>
  The runs of a section: the maximal blocks of lines without a blank line between them.
  A plain line (trimmed) is not blank, no heading, no image line and not bold-only.
\<close>

function runs :: "string list \<Rightarrow> string list list" where
  "runs [] = []"
| "runs (l # ls) =
     (if is_blank l then runs ls
      else (l # takeWhile (\<lambda>x. \<not> is_blank x) ls) # runs (dropWhile (\<lambda>x. \<not> is_blank x) ls))"
  by pat_completeness auto
termination
  by (relation "measure length") (auto simp: length_dropWhile_le less_Suc_eq_le)

definition plain_line :: "string \<Rightarrow> bool" where
  "plain_line s \<longleftrightarrow>
     s \<noteq> [] \<and> \<not> is_heading s \<and> \<not> is_image s \<and> \<not> (startswith ''**'' s \<and> endswith ''**'' s)"

definition summary_heading :: "string \<Rightarrow> bool" where
  "summary_heading l \<longleftrightarrow>
     startswith ''## '' (strip l) \<and> lower (strip (drop 3 (strip l))) = ''professional summary''"

text \<open>A trimmed text that is not empty starts and ends with a character that is no space.\<close>

definition trimmed :: "string \<Rightarrow> bool" where
  "trimmed s \<longleftrightarrow> s \<noteq> [] \<and> \<not> isspace (hd s) \<and> \<not> isspace (last s)"

text \<open>No line from index \<open>a\<close> up to index \<open>b\<close> is a second-level heading.\<close>

definition no_h2 :: "string list \<Rightarrow> nat \<Rightarrow> nat \<Rightarrow> bool" where
  "no_h2 lines a b \<longleftrightarrow>
     (\<forall>k. a \<le> k \<and> k < b \<and> k < length lines \<longrightarrow> \<not> startswith ''## '' (strip (lines ! k)))"

section \<open>The loops return and advance\<close>

declare skip_blank.simps [simp del] collect_bullets.simps [simp del]
  collect_summary.simps [simp del] replace.simps [simp del]

lemma getitem_less: "i < length xs \<Longrightarrow> getitem xs i = Inr (xs ! i)"
  by (simp add: getitem_def)

lemma skip_blank_step:
  "skip_blank lines i =
     (if i < length lines \<and> strip (lines ! i) = [] then skip_blank lines (i + 1) else Inr i)"
  by (subst skip_blank.simps) (simp add: getitem_less)

lemma collect_bullets_step:
  "collect_bullets lines i bs =
     (if i < length lines then
        (let s = strip (lines ! i) in
         if s = [] then collect_bullets lines (i + 1) bs
         else if startswith ''## '' s \<or> startswith ''### '' s then Inr (i, bs)
         else if startswith ''- '' s then collect_bullets lines (i + 1) (bs @ [strip (drop 2 s)])
         else collect_bullets lines (i + 1) bs)
      else Inr (i, bs))"
  by (subst collect_bullets.simps) (simp add: getitem_less)

lemma collect_summary_step:
  "collect_summary lines i parts =
     (if i < length lines \<and> strip (lines ! i) \<noteq> [] \<and> \<not> startswith ''## '' (strip (lines ! i))
      then collect_summary lines (i + 1) (parts @ [strip (lines ! i)])
      else Inr (i, parts))"
  by (subst collect_summary.simps) (simp add: getitem_less)

lemma skip_blank_ok: "\<exists>j. skip_blank lines i = Inr j \<and> i \<le> j"
proof (induction "length lines - i" arbitrary: i rule: less_induct)
  case less
  show ?case
  proof (cases "i < length lines \<and> strip (lines ! i) = []")
    case True
    then have lt: "i < length lines" by blast
    then have "length lines - Suc i < length lines - i" by linarith
    from less [OF this] obtain j where "skip_blank lines (Suc i) = Inr j" "Suc i \<le> j"
      by blast
    with True show ?thesis
      by (subst skip_blank_step) simp
  next
    case False
    then show ?thesis
      by (subst skip_blank_step) auto
  qed
qed

lemma collect_bullets_ok: "\<exists>j bs'. collect_bullets lines i bs = Inr (j, bs') \<and> i \<le> j"
proof (induction "length lines - i" arbitrary: i bs rule: less_induct)
  case less
  show ?case
  proof (cases "i < length lines")
    case False
    then show ?thesis by (subst collect_bullets_step) simp
  next
    case True
    then have "length lines - Suc i < length lines - i" by linarith
    from less [OF this]
    have IH: "\<exists>j. (\<exists>bs'. collect_bullets lines (Suc i) b = Inr (j, bs')) \<and> i \<le> j" for b
      by (meson Suc_leD)
    show ?thesis
      by (subst collect_bullets_step) (simp add: True Let_def IH)
  qed
qed

lemma collect_summary_ok: "\<exists>j ps. collect_summary lines i parts = Inr (j, ps) \<and> i \<le> j"
proof (induction "length lines - i" arbitrary: i parts rule: less_induct)
  case less
  show ?case
  proof (cases "i < length lines")
    case False
    then show ?thesis by (subst collect_summary_step) simp
  next
    case True
    then have "length lines - Suc i < length lines - i" by linarith
    from less [OF this]
    have IH: "\<exists>j. (\<exists>ps. collect_summary lines (Suc i) b = Inr (j, ps)) \<and> i \<le> j" for b
      by (meson Suc_leD)
    show ?thesis
      by (subst collect_summary_step) (simp add: IH)
  qed
qed

lemma item_meta_ok: "\<exists>j m. item_meta lines i = Inr (j, m) \<and> i \<le> j"
  by (auto simp: item_meta_def getitem_less)

lemma item_subtitle_ok: "\<exists>j s. item_subtitle lines i = Inr (j, s) \<and> i \<le> j"
  by (auto simp: item_subtitle_def getitem_less)

lemma parse_item_ok: "\<exists>j it. parse_item lines i line = Inr (j, it) \<and> i < j"
proof -
  obtain i1 where 1: "skip_blank lines (i + 1) = Inr i1" "i + 1 \<le> i1"
    using skip_blank_ok by blast
  obtain i2 m where 2: "item_meta lines i1 = Inr (i2, m)" "i1 \<le> i2"
    using item_meta_ok by blast
  obtain i3 s where 3: "item_subtitle lines i2 = Inr (i3, s)" "i2 \<le> i3"
    using item_subtitle_ok by blast
  obtain i4 bs where 4: "collect_bullets lines i3 [] = Inr (i4, bs)" "i3 \<le> i4"
    using collect_bullets_ok by blast
  from 1 2 3 4 show ?thesis
    by (simp add: parse_item_def)
qed

lemma loop_body_ok:
  assumes "i < length lines"
  shows "\<exists>j cs' d'. loop_body lines i cs d = Inr (j, cs', d') \<and> i < j"
proof -
  obtain j it where 1: "parse_item lines i (strip (lines ! i)) = Inr (j, it)" "i < j"
    using parse_item_ok by blast
  obtain j' ps where 2: "collect_summary lines (i + 1) [strip (lines ! i)] = Inr (j', ps)" "i + 1 \<le> j'"
    using collect_summary_ok by blast
  from assms 1 2 show ?thesis
    by (simp add: loop_body_def getitem_less Let_def)
qed

termination parse_loop
proof (relation "measure (\<lambda>(lines, i, cs, d). length lines - i)")
  show "wf (measure (\<lambda>(lines, i, cs, d). length lines - i))" by simp
next
  fix lines :: "string list" and i cs d x2 i' y cs' d'
  assume "i < length lines" "loop_body lines i cs d = Inr x2" "(i', y) = x2" "(cs', d') = y"
  with loop_body_ok [of i lines cs d]
  show "((lines, i', cs', d'), (lines, i, cs, d)) \<in> measure (\<lambda>(lines, i, cs, d). length lines - i)"
    by auto
qed

termination item_events
proof (relation "measure (\<lambda>(lines, i, cs, d). length lines - i)")
  show "wf (measure (\<lambda>(lines, i, cs, d). length lines - i))" by simp
next
  fix lines :: "string list" and i cs d x2 i' y cs' d'
  assume "i < length lines" "loop_body lines i cs d = Inr x2" "(i', y) = x2" "(cs', d') = y"
  with loop_body_ok [of i lines cs d]
  show "((lines, i', cs', d'), (lines, i, cs, d)) \<in> measure (\<lambda>(lines, i, cs, d). length lines - i)"
    by auto
qed

declare parse_loop.simps [simp del] item_events.simps [simp del] runs.simps [simp del]

text \<open>
  An invariant of the main loop holds of the record it returns, and the loop returns
  one.
\<close>

lemma parse_loop_invariant:
  assumes "I i cs d"
    and "\<And>i cs d j cs' d'. I i cs d \<Longrightarrow> i < length lines \<Longrightarrow>
           loop_body lines i cs d = Inr (j, cs', d') \<Longrightarrow> I j cs' d'"
  shows "\<exists>r j cs'. parse_loop lines i cs d = Inr r \<and> I j cs' r \<and> length lines \<le> j"
  using assms(1)
proof (induction "length lines - i" arbitrary: i cs d rule: less_induct)
  case less
  show ?case
  proof (cases "i < length lines")
    case False
    then have "parse_loop lines i cs d = Inr d" by (subst parse_loop.simps) simp
    with False less.prems show ?thesis by (metis not_less)
  next
    case True
    obtain j cs' d' where b: "loop_body lines i cs d = Inr (j, cs', d')" "i < j"
      using loop_body_ok [OF True] by blast
    have I': "I j cs' d'" using assms(2) [OF less.prems True b(1)] .
    have "length lines - j < length lines - i" using True b(2) by simp
    from less.hyps [OF this I']
    obtain r j' cs'' where r: "parse_loop lines j cs' d' = Inr r" "I j' cs'' r" "length lines \<le> j'"
      by blast
    have "parse_loop lines i cs d = parse_loop lines j cs' d'"
      by (subst parse_loop.simps) (simp add: True b(1))
    with r show ?thesis by metis
  qed
qed

section \<open>Facts about the search\<close>

lemma scan_Nil [simp]: "scan p [] s = []"
  by (cases s) simp_all

lemma scan_append: "scan p r (a @ b) = scan p (scan p r a) b"
proof (induction a arbitrary: r)
  case Nil
  show ?case by simp
next
  case (Cons c a)
  show ?case by (cases r) (simp_all add: Cons.IH)
qed

lemma scan_clean: "p \<noteq> [] \<Longrightarrow> hd p \<notin> set e \<Longrightarrow> scan p p e = p"
proof (induction e)
  case Nil
  show ?case by simp
next
  case (Cons c e)
  then show ?case by (cases p) auto
qed

lemma contains_iff: "contains p s \<longleftrightarrow> (\<exists>u v. s = u @ p @ v)"
proof (induction s)
  case Nil
  show ?case by auto
next
  case (Cons c s)
  have sw: "startswith p (c # s) \<longleftrightarrow> (\<exists>v. c # s = p @ v)"
    unfolding startswith_def by (metis append_eq_conv_conj append_take_drop_id)
  show ?case
  proof
    assume "contains p (c # s)"
    then consider "startswith p (c # s)" | "contains p s" by auto
    then show "\<exists>u v. c # s = u @ p @ v"
    proof cases
      case 1
      then obtain v where "c # s = p @ v" using sw by blast
      then have "c # s = [] @ p @ v" by simp
      then show ?thesis by blast
    next
      case 2
      then obtain u v where "s = u @ p @ v" using Cons.IH by blast
      then have "c # s = (c # u) @ p @ v" by simp
      then show ?thesis by blast
    qed
  next
    assume "\<exists>u v. c # s = u @ p @ v"
    then obtain u v where uv: "c # s = u @ p @ v" by blast
    show "contains p (c # s)"
    proof (cases u)
      case Nil
      with uv have "startswith p (c # s)" using sw by auto
      then show ?thesis by simp
    next
      case (Cons c' u')
      with uv have "s = u' @ p @ v" by simp
      then have "contains p s" using Cons.IH by blast
      then show ?thesis by simp
    qed
  qed
qed

lemma scan_match: "scan p r (r @ v) = []"
  by (induction r) simp_all

lemma scan_suffix: "\<exists>k. r = drop k p \<Longrightarrow> \<exists>k. scan p r u = drop k p"
proof (induction u arbitrary: r)
  case Nil
  then show ?case by simp
next
  case (Cons c u)
  show ?case
  proof (cases r)
    case Nil
    then have "scan p r (c # u) = drop (length p) p" by simp
    then show ?thesis by blast
  next
    case (Cons x r')
    from Cons.prems obtain k where k: "r = drop k p" by blast
    with Cons have "r' = drop (Suc k) p" by (metis drop_Suc tl_drop list.sel(3))
    then have 1: "\<exists>k. r' = drop k p" by blast
    have 2: "\<exists>k. tl p = drop k p" by (metis drop_Suc drop0)
    have 3: "\<exists>k. p = drop k p" by (metis drop0)
    show ?thesis
      using Cons Cons.IH [OF 1] Cons.IH [OF 2] Cons.IH [OF 3] by simp
  qed
qed

lemma scan_from_suffix:
  assumes "p \<noteq> []" "hd p \<notin> set (tl p)" "r = drop k p"
  shows "scan p r (p @ v) = []"
proof (cases r)
  case Nil
  then show ?thesis by simp
next
  case (Cons x r')
  obtain h t where p: "p = h # t" using assms(1) by (cases p) auto
  show ?thesis
  proof (cases "x = h")
    case True
    have "k = 0"
    proof (rule ccontr)
      assume "k \<noteq> 0"
      then obtain k' where "k = Suc k'" by (cases k) auto
      with assms(3) p Cons have "x \<in> set t" by (metis drop_Suc_Cons in_set_dropD list.set_intros(1))
      with True assms(2) p show False by simp
    qed
    with assms(3) have "r = p" by simp
    then show ?thesis using scan_match by simp
  next
    case False
    with Cons p have "scan p r (p @ v) = scan p t (t @ v)" by simp
    then show ?thesis using scan_match by simp
  qed
qed

text \<open>A text that holds the pattern is found to hold it.\<close>

lemma scan_found:
  assumes "contains p s" "p \<noteq> []" "hd p \<notin> set (tl p)"
  shows "scan p p s = []"
proof -
  obtain u v where s: "s = u @ p @ v" using assms(1) contains_iff by blast
  have "\<exists>k. p = drop k p" by (metis drop0)
  then obtain k where "scan p p u = drop k p" using scan_suffix by blast
  then have "scan p (scan p p u) (p @ v) = []" using scan_from_suffix assms(2,3) by blast
  then show ?thesis by (simp add: s scan_append)
qed

section \<open>Facts about substrings\<close>

lemma contains_appendI1: "contains p a \<Longrightarrow> contains p (a @ b)"
proof -
  assume "contains p a"
  then obtain u v where "a = u @ p @ v" using contains_iff by blast
  then have "a @ b = u @ p @ (v @ b)" by simp
  then show ?thesis using contains_iff by blast
qed

lemma contains_appendI2: "contains p b \<Longrightarrow> contains p (a @ b)"
proof -
  assume "contains p b"
  then obtain u v where "b = u @ p @ v" using contains_iff by blast
  then have "a @ b = (a @ u) @ p @ v" by simp
  then show ?thesis using contains_iff by blast
qed





section \<open>The photo\<close>





section \<open>The headline\<close>



section \<open>The image of the markdown\<close>

text \<open>
  Claim C6. The target is cut at the first \<^verbatim>\<open>(\<close> of the image line, not at the
  \<^verbatim>\<open>(\<close> that follows \<^verbatim>\<open>]\<close>: for the line \<^verbatim>\<open>![a(b](u)\<close>, whose URI is
  \<^verbatim>\<open>u\<close>, \<open>image_from_md\<close> is \<^verbatim>\<open>b](u\<close>.
\<close>

theorem image_target_first_paren:
  "parse_markdown ''![a(b](u)'' = Inr (empty_data\<lparr>image_from_md := ''b](u''\<rparr>)"
  by code_simp

section \<open>Facts about prefixes\<close>

lemma startswith_Nil [simp]: "startswith [] s"
  by (simp add: startswith_def)

lemma startswith_Cons:
  "startswith (a # p) s \<longleftrightarrow> (case s of [] \<Rightarrow> False | c # t \<Rightarrow> c = a \<and> startswith p t)"
  by (cases s) (auto simp: startswith_def)

lemma startswith_empty [simp]: "startswith (a # p) [] \<longleftrightarrow> False"
  by (simp add: startswith_Cons)

section \<open>The inner loops, as list functions\<close>

lemma drop_step: "i < length lines \<Longrightarrow> drop i lines = lines ! i # drop (Suc i) lines"
  by (simp add: Cons_nth_drop_Suc)

lemma skip_blank_eq: "skip_blank lines i = Inr (i + length (takeWhile is_blank (drop i lines)))"
proof (induction "length lines - i" arbitrary: i rule: less_induct)
  case less
  show ?case
  proof (cases "i < length lines")
    case False
    then show ?thesis by (subst skip_blank_step) simp
  next
    case True
    then have "length lines - Suc i < length lines - i" by linarith
    from less [OF this]
    have IH: "skip_blank lines (Suc i) = Inr (Suc i + length (takeWhile is_blank (drop (Suc i) lines)))" .
    show ?thesis
      by (subst skip_blank_step) (simp add: True drop_step [OF True] IH is_blank_def)
  qed
qed

lemma collect_summary_eq:
  "collect_summary lines i parts =
     Inr (i + length (takeWhile (\<lambda>l. \<not> is_blank l \<and> \<not> startswith ''## '' (strip l)) (drop i lines)),
          parts @ map strip (takeWhile (\<lambda>l. \<not> is_blank l \<and> \<not> startswith ''## '' (strip l)) (drop i lines)))"
proof (induction "length lines - i" arbitrary: i parts rule: less_induct)
  case less
  show ?case
  proof (cases "i < length lines")
    case False
    then show ?thesis by (subst collect_summary_step) simp
  next
    case True
    then have "length lines - Suc i < length lines - i" by linarith
    note IH = less [OF this]
    show ?thesis
      by (subst collect_summary_step) (simp add: True drop_step [OF True] IH is_blank_def)
  qed
qed

lemma collect_bullets_eq:
  "collect_bullets lines i bs =
     Inr (i + length (takeWhile (\<lambda>l. \<not> startswith ''## '' (strip l) \<and> \<not> startswith ''### '' (strip l)) (drop i lines)),
          bs @ map (\<lambda>l. strip (drop 2 (strip l))) (filter (\<lambda>l. startswith ''- '' (strip l))
            (takeWhile (\<lambda>l. \<not> startswith ''## '' (strip l) \<and> \<not> startswith ''### '' (strip l)) (drop i lines))))"
proof (induction "length lines - i" arbitrary: i bs rule: less_induct)
  case less
  show ?case
  proof (cases "i < length lines")
    case False
    then show ?thesis by (subst collect_bullets_step) simp
  next
    case True
    then have "length lines - Suc i < length lines - i" by linarith
    note IH = less [OF this]
    show ?thesis
      by (subst collect_bullets_step) (simp add: True drop_step [OF True] IH Let_def)
  qed
qed

lemma item_meta_eq:
  "item_meta lines i =
     (case drop i lines of
        [] \<Rightarrow> Inr (i, [])
      | l # _ \<Rightarrow> if startswith ''**'' (strip l) then Inr (Suc i, strip (replace ''**'' [] (strip l)))
                 else Inr (i, []))"
proof (cases "i < length lines")
  case True
  then show ?thesis by (simp add: item_meta_def getitem_less drop_step [OF True])
next
  case False
  then show ?thesis by (simp add: item_meta_def)
qed

lemma item_subtitle_eq:
  "item_subtitle lines i =
     (case drop i lines of
        [] \<Rightarrow> Inr (i, [])
      | l # _ \<Rightarrow> if \<not> is_blank l \<and> \<not> startswith ''-'' (strip l) \<and> \<not> startswith ''## '' (strip l)
                 then Inr (Suc i, strip l) else Inr (i, []))"
proof (cases "i < length lines")
  case True
  then show ?thesis by (simp add: item_subtitle_def getitem_less drop_step [OF True] is_blank_def)
next
  case False
  then show ?thesis by (simp add: item_subtitle_def)
qed

section \<open>One turn of the main loop, case by case\<close>

lemma loop_body_cases [consumes 2, case_names blank image name role heading item summary skill fit other]:
  assumes "i < length lines" and "loop_body lines i cs d = Inr (j, cs', d')"
  obtains
    (blank) "strip (lines ! i) = []" "j = Suc i" "cs' = cs" "d' = d"
  | (image) "strip (lines ! i) \<noteq> []" "is_image (strip (lines ! i))" "j = Suc i" "cs' = cs" "d' = d"
  | (name) "strip (lines ! i) \<noteq> []" "\<not> is_image (strip (lines ! i))"
      "startswith ''# '' (strip (lines ! i))" "name d = []"
      "j = Suc i" "cs' = cs" "d' = d\<lparr>name := strip (drop 2 (strip (lines ! i)))\<rparr>"
  | (role) "strip (lines ! i) \<noteq> []" "\<not> is_image (strip (lines ! i))"
      "\<not> (startswith ''# '' (strip (lines ! i)) \<and> name d = [])"
      "startswith ''**'' (strip (lines ! i))" "endswith ''**'' (strip (lines ! i))" "role d = []"
      "j = Suc i" "cs' = cs" "d' = d\<lparr>role := strip (strip_stars (strip (lines ! i)))\<rparr>"
  | (heading) "startswith ''## '' (strip (lines ! i))"
      "j = Suc i" "cs' = lower (strip (drop 3 (strip (lines ! i))))" "d' = d"
  | (item) it where "startswith ''### '' (strip (lines ! i))"
      "parse_item lines i (strip (lines ! i)) = Inr (j, it)" "cs' = cs" "d' = add_item cs it d"
  | (summary) parts where "strip (lines ! i) \<noteq> []" "\<not> is_image (strip (lines ! i))"
      "\<not> (startswith ''# '' (strip (lines ! i)) \<and> name d = [])"
      "\<not> (startswith ''**'' (strip (lines ! i)) \<and> endswith ''**'' (strip (lines ! i)) \<and> role d = [])"
      "\<not> startswith ''## '' (strip (lines ! i))" "\<not> startswith ''### '' (strip (lines ! i))"
      "cs = ''professional summary''"
      "collect_summary lines (Suc i) [strip (lines ! i)] = Inr (j, parts)"
      "cs' = cs" "d' = d\<lparr>summary := strip (join '' '' parts)\<rparr>"
  | (skill) "cs = ''core skills''" "startswith ''- '' (strip (lines ! i))"
      "j = Suc i" "cs' = cs" "d' = d\<lparr>skills := skills d @ [strip (drop 2 (strip (lines ! i)))]\<rparr>"
  | (fit) "contains ''role alignment'' cs" "startswith ''- '' (strip (lines ! i))"
      "cs \<noteq> ''professional summary''"
      "j = Suc i" "cs' = cs" "d' = d\<lparr>fit := fit d @ [strip (drop 2 (strip (lines ! i)))]\<rparr>"
  | (other) "strip (lines ! i) \<noteq> []" "\<not> is_image (strip (lines ! i))"
      "\<not> (startswith ''# '' (strip (lines ! i)) \<and> name d = [])"
      "\<not> (startswith ''**'' (strip (lines ! i)) \<and> endswith ''**'' (strip (lines ! i)) \<and> role d = [])"
      "\<not> startswith ''## '' (strip (lines ! i))" "\<not> startswith ''### '' (strip (lines ! i))"
      "cs \<noteq> ''professional summary''"
      "j = Suc i" "cs' = cs" "d' = add_contact cs (strip (lines ! i)) d"
proof -
  let ?l = "strip (lines ! i)"
  from assms have b: "(if ?l = [] then Inr (i + 1, cs, d)
           else if is_image ?l then Inr (i + 1, cs, d)
           else if startswith ''# '' ?l \<and> name d = [] then
             Inr (i + 1, cs, d\<lparr>name := strip (drop 2 ?l)\<rparr>)
           else if startswith ''**'' ?l \<and> endswith ''**'' ?l \<and> role d = [] then
             Inr (i + 1, cs, d\<lparr>role := strip (strip_stars ?l)\<rparr>)
           else if startswith ''## '' ?l then
             Inr (i + 1, lower (strip (drop 3 ?l)), d)
           else if startswith ''### '' ?l then
             (case parse_item lines i ?l of
                Inl e \<Rightarrow> Inl e
              | Inr (i', it) \<Rightarrow> Inr (i', cs, add_item cs it d))
           else if cs = ''professional summary'' then
             (case collect_summary lines (i + 1) [?l] of
                Inl e \<Rightarrow> Inl e
              | Inr (i', parts) \<Rightarrow>
                  Inr (i', cs, d\<lparr>summary := strip (join '' '' parts)\<rparr>))
           else if cs = ''core skills'' \<and> startswith ''- '' ?l then
             Inr (i + 1, cs, d\<lparr>skills := skills d @ [strip (drop 2 ?l)]\<rparr>)
           else if contains ''role alignment'' cs \<and> startswith ''- '' ?l then
             Inr (i + 1, cs, d\<lparr>fit := fit d @ [strip (drop 2 ?l)]\<rparr>)
           else Inr (i + 1, cs, add_contact cs ?l d)) = Inr (j, cs', d')"
    by (simp add: loop_body_def getitem_less Let_def)
  show thesis
  proof (cases "?l = []")
    case True
    with b show ?thesis by (intro blank) auto
  next
    case n1: False
    show ?thesis
    proof (cases "is_image ?l")
      case True
      with b n1 show ?thesis by (intro image) auto
    next
      case n2: False
      show ?thesis
      proof (cases "startswith ''# '' ?l \<and> name d = []")
        case True
        with b n1 n2 show ?thesis by (intro name) auto
      next
        case n3: False
        show ?thesis
        proof (cases "startswith ''**'' ?l \<and> endswith ''**'' ?l \<and> role d = []")
          case True
          with b n1 n2 n3 show ?thesis by (intro role) auto
        next
          case n4: False
          show ?thesis
          proof (cases "startswith ''## '' ?l")
            case True
            with b n1 n2 n3 n4 show ?thesis by (intro heading) auto
          next
            case n5: False
            show ?thesis
            proof (cases "startswith ''### '' ?l")
              case True
              obtain j' it where p: "parse_item lines i ?l = Inr (j', it)"
                using parse_item_ok by blast
              with b n1 n2 n3 n4 n5 True show ?thesis by (intro item [of it]) auto
            next
              case n6: False
              show ?thesis
              proof (cases "cs = ''professional summary''")
                case True
                obtain j' ps where p: "collect_summary lines (Suc i) [?l] = Inr (j', ps)"
                  using collect_summary_ok by blast
                with b n1 n2 n3 n4 n5 n6 True show ?thesis by (intro summary [of ps]) auto
              next
                case n7: False
                show ?thesis
                proof (cases "cs = ''core skills'' \<and> startswith ''- '' ?l")
                  case True
                  with b n1 n2 n3 n4 n5 n6 n7 show ?thesis by (intro skill) auto
                next
                  case n8: False
                  show ?thesis
                  proof (cases "contains ''role alignment'' cs \<and> startswith ''- '' ?l")
                    case True
                    with b n1 n2 n3 n4 n5 n6 n7 n8 show ?thesis by (intro fit) auto
                  next
                    case n9: False
                    with b n1 n2 n3 n4 n5 n6 n7 n8 show ?thesis by (intro other) auto
                  qed
                qed
              qed
            qed
          qed
        qed
      qed
    qed
  qed
qed

section \<open>Facts about strip\<close>

lemma strip_chars_eq_Nil: "strip_chars P s = [] \<longleftrightarrow> (\<forall>c\<in>set s. P c)"
proof
  assume "strip_chars P s = []"
  then have "dropWhile P (rev (dropWhile P s)) = []"
    by (simp add: strip_chars_def rstrip_chars_def lstrip_chars_def)
  then have a: "\<forall>c\<in>set (dropWhile P s). P c"
    by (simp add: dropWhile_eq_Nil_conv)
  have "dropWhile P s = []"
  proof (rule ccontr)
    assume n: "dropWhile P s \<noteq> []"
    then have "\<not> P (hd (dropWhile P s))" by (rule hd_dropWhile)
    moreover have "hd (dropWhile P s) \<in> set (dropWhile P s)" using n by simp
    ultimately show False using a by blast
  qed
  then show "\<forall>c\<in>set s. P c" by (simp add: dropWhile_eq_Nil_conv)
next
  assume "\<forall>c\<in>set s. P c"
  then have d: "dropWhile P s = []" by (simp add: dropWhile_eq_Nil_conv)
  show "strip_chars P s = []"
    unfolding strip_chars_def rstrip_chars_def lstrip_chars_def d by simp
qed

lemma strip_chars_last: "strip_chars P s \<noteq> [] \<Longrightarrow> \<not> P (last (strip_chars P s))"
proof -
  assume n: "strip_chars P s \<noteq> []"
  let ?u = "dropWhile P (rev (lstrip_chars P s))"
  from n have u: "?u \<noteq> []" by (simp add: strip_chars_def rstrip_chars_def)
  have "last (strip_chars P s) = hd ?u"
    using u by (simp add: strip_chars_def rstrip_chars_def last_rev)
  then show ?thesis using hd_dropWhile [OF u] by simp
qed

lemma strip_eq_Nil: "strip s = [] \<longleftrightarrow> (\<forall>c\<in>set s. isspace c)"
  by (simp add: strip_def strip_chars_eq_Nil)

lemma strip_last: "strip s \<noteq> [] \<Longrightarrow> \<not> isspace (last (strip s))"
  by (simp add: strip_def strip_chars_last)

lemma startswith_append: "startswith p s \<longleftrightarrow> (\<exists>t. s = p @ t)"
  unfolding startswith_def by (metis append_eq_conv_conj append_take_drop_id)

text \<open>After a heading marker that ends with a space, a trimmed line has text left.\<close>

lemma after_marker_nonempty:
  assumes "startswith (p @ [w]) (strip raw)" and "isspace w"
  shows "strip (drop (Suc (length p)) (strip raw)) \<noteq> []"
proof -
  obtain t where t: "strip raw = (p @ [w]) @ t" using assms(1) startswith_append by blast
  then have ne: "strip raw \<noteq> []" by simp
  have "t \<noteq> []"
  proof
    assume "t = []"
    with t have "last (strip raw) = w" by simp
    with strip_last [OF ne] assms(2) show False by simp
  qed
  then have "last t = last (strip raw)" using t by simp
  then have "\<not> isspace (last t)" using strip_last [OF ne] by simp
  moreover have "last t \<in> set t" using \<open>t \<noteq> []\<close> by simp
  ultimately have "strip t \<noteq> []" using strip_eq_Nil by blast
  moreover have "drop (Suc (length p)) (strip raw) = t" using t by simp
  ultimately show ?thesis by simp
qed

lemma space_isspace: "isspace CHR '' ''"
  by (simp add: isspace_def)

lemma name_nonempty: "startswith ''# '' (strip raw) \<Longrightarrow> strip (drop 2 (strip raw)) \<noteq> []"
  using after_marker_nonempty [of "''#''" "CHR '' ''" raw] space_isspace
  by (simp add: numeral_2_eq_2)


section \<open>No second-level heading is passed over\<close>

lemma takeWhile_range:
  assumes "a \<le> k" and "k < a + length (takeWhile P (drop a lines))"
  shows "P (lines ! k) \<and> k < length lines"
proof -
  let ?t = "takeWhile P (drop a lines)"
  have l: "length ?t \<le> length lines - a"
    using length_takeWhile_le [of P "drop a lines"] by simp
  from assms have ka: "k - a < length ?t" by linarith
  with l assms(1) have kn: "k < length lines" by linarith
  have "?t ! (k - a) = drop a lines ! (k - a)" using ka by (rule takeWhile_nth)
  also have "\<dots> = lines ! k" using assms(1) kn by simp
  finally have "lines ! k \<in> set ?t" using ka by (metis nth_mem)
  then show ?thesis using kn by (auto dest: set_takeWhileD)
qed

lemma takeWhile_bound: "a \<le> length lines \<Longrightarrow> a + length (takeWhile P (drop a lines)) \<le> length lines"
  using length_takeWhile_le [of P "drop a lines"] by simp

lemma no_h2_trans:
  assumes "no_h2 lines a b" and "no_h2 lines b c"
  shows "no_h2 lines a c"
  unfolding no_h2_def
proof (intro allI impI)
  fix k assume k: "a \<le> k \<and> k < c \<and> k < length lines"
  show "\<not> startswith ''## '' (strip (lines ! k))"
  proof (cases "k < b")
    case True
    with k assms(1) show ?thesis unfolding no_h2_def by blast
  next
    case False
    then have "b \<le> k" by simp
    with k assms(2) show ?thesis unfolding no_h2_def by blast
  qed
qed

lemma no_h2_empty [simp]: "no_h2 lines a a"
  by (auto simp: no_h2_def)

lemma no_h2_single:
  "(a < length lines \<Longrightarrow> \<not> startswith ''## '' (strip (lines ! a))) \<Longrightarrow> no_h2 lines a (Suc a)"
  unfolding no_h2_def
proof (intro allI impI)
  fix k assume a: "a < length lines \<Longrightarrow> \<not> startswith ''## '' (strip (lines ! a))"
    and k: "a \<le> k \<and> k < Suc a \<and> k < length lines"
  then have "k = a" by linarith
  with a k show "\<not> startswith ''## '' (strip (lines ! k))" by blast
qed

lemma no_h2_takeWhile:
  assumes "\<And>l. P l \<Longrightarrow> \<not> startswith ''## '' (strip l)"
  shows "no_h2 lines a (a + length (takeWhile P (drop a lines)))"
  unfolding no_h2_def
proof (intro allI impI)
  fix k assume "a \<le> k \<and> k < a + length (takeWhile P (drop a lines)) \<and> k < length lines"
  then have "P (lines ! k)" using takeWhile_range [of a k P lines] by blast
  then show "\<not> startswith ''## '' (strip (lines ! k))" by (rule assms)
qed

text \<open>The Item parsed at index \<open>i\<close> ends before the next second-level heading, and inside the lines.\<close>

lemma parse_item_skips:
  assumes "parse_item lines i line = Inr (j, it)" and "i < length lines"
  shows "no_h2 lines (Suc i) j \<and> j \<le> length lines \<and> title it = strip (drop 4 line)"
proof -
  define i1 where "i1 = Suc i + length (takeWhile is_blank (drop (Suc i) lines))"
  have s0: "skip_blank lines (Suc i) = Inr i1" by (simp add: skip_blank_eq i1_def)
  have h0: "no_h2 lines (Suc i) i1"
    unfolding i1_def by (rule no_h2_takeWhile) (simp add: is_blank_def)
  have b0: "i1 \<le> length lines"
    unfolding i1_def using assms(2) by (intro takeWhile_bound) simp
  obtain i2 m where s1: "item_meta lines i1 = Inr (i2, m)" using item_meta_ok by blast
  have h1: "no_h2 lines i1 i2 \<and> i2 \<le> length lines"
  proof (cases "i1 < length lines \<and> startswith ''**'' (strip (lines ! i1))")
    case True
    then have "i2 = Suc i1" using s1 by (simp add: item_meta_def getitem_less)
    moreover have "\<not> startswith ''## '' (strip (lines ! i1))"
      using True by (auto simp: startswith_Cons split: list.splits)
    ultimately show ?thesis using True by (simp add: no_h2_single)
  next
    case False
    then have "i2 = i1" using s1 by (auto simp: item_meta_def getitem_less split: if_splits)
    then show ?thesis using b0 by simp
  qed
  obtain i3 sub where s2: "item_subtitle lines i2 = Inr (i3, sub)" using item_subtitle_ok by blast
  have h2: "no_h2 lines i2 i3 \<and> i3 \<le> length lines"
  proof (cases "i2 < length lines \<and> strip (lines ! i2) \<noteq> [] \<and> \<not> startswith ''-'' (strip (lines ! i2))
      \<and> \<not> startswith ''## '' (strip (lines ! i2))")
    case True
    then have "i3 = Suc i2" using s2 by (simp add: item_subtitle_def getitem_less)
    then show ?thesis using True by (simp add: no_h2_single)
  next
    case False
    then have "i3 = i2" using s2 by (auto simp: item_subtitle_def getitem_less split: if_splits)
    then show ?thesis using h1 by simp
  qed
  define i4 where "i4 = i3 + length (takeWhile (\<lambda>l. \<not> startswith ''## '' (strip l) \<and> \<not> startswith ''### '' (strip l)) (drop i3 lines))"
  obtain bs where s3: "collect_bullets lines i3 [] = Inr (i4, bs)"
    by (simp add: collect_bullets_eq i4_def)
  have h3: "no_h2 lines i3 i4" unfolding i4_def by (rule no_h2_takeWhile) simp
  have b3: "i4 \<le> length lines" unfolding i4_def using h2 by (intro takeWhile_bound) simp
  from assms(1) have "j = i4" "title it = strip (drop 4 line)"
    by (auto simp: parse_item_def s0 s1 s2 s3)
  moreover have "no_h2 lines (Suc i) i4"
    using h0 h1 h2 h3 by (blast intro: no_h2_trans)
  ultimately show ?thesis using b3 by simp
qed

lemma collect_summary_skips:
  assumes "collect_summary lines (Suc i) parts = Inr (j, ps)" and "i < length lines"
  shows "no_h2 lines (Suc i) j \<and> j \<le> length lines"
proof -
  have j: "j = Suc i + length (takeWhile (\<lambda>l. \<not> is_blank l \<and> \<not> startswith ''## '' (strip l)) (drop (Suc i) lines))"
    using assms(1) by (simp add: collect_summary_eq)
  have "no_h2 lines (Suc i) j" unfolding j by (rule no_h2_takeWhile) simp
  moreover have "j \<le> length lines" unfolding j using assms(2) by (intro takeWhile_bound) simp
  ultimately show ?thesis by simp
qed

text \<open>
  One turn of the main loop: the index grows and stays inside the lines, the section
  changes at a second-level heading only, and no second-level heading is passed over.
\<close>

lemma loop_body_section:
  assumes "i < length lines" and "loop_body lines i cs d = Inr (j, cs', d')"
  shows "i < j \<and> j \<le> length lines \<and> no_h2 lines (Suc i) j \<and>
    cs' = (if startswith ''## '' (strip (lines ! i)) then lower (strip (drop 3 (strip (lines ! i)))) else cs)"
  using assms
proof (cases rule: loop_body_cases)
  case blank
  with assms(1) show ?thesis by simp
next
  case image
  with assms(1) show ?thesis by (auto simp: is_image_def startswith_Cons split: list.splits)
next
  case name
  with assms(1) show ?thesis by (auto simp: startswith_Cons split: list.splits)
next
  case role
  with assms(1) show ?thesis by (auto simp: startswith_Cons split: list.splits)
next
  case heading
  with assms(1) show ?thesis by simp
next
  case (item it)
  have "i < j" using item(2) parse_item_ok [of lines i "strip (lines ! i)"] by simp
  moreover have "\<not> startswith ''## '' (strip (lines ! i))"
    using item(1) by (auto simp: startswith_Cons split: list.splits)
  ultimately show ?thesis using parse_item_skips [OF item(2) assms(1)] item by simp
next
  case (summary parts)
  have "Suc i \<le> j"
    using summary(8) collect_summary_ok [of lines "Suc i" "[strip (lines ! i)]"] by simp
  then show ?thesis using collect_summary_skips [OF summary(8) assms(1)] summary by simp
next
  case skill
  with assms(1) show ?thesis by (auto simp: startswith_Cons split: list.splits)
next
  case fit
  with assms(1) show ?thesis by (auto simp: startswith_Cons split: list.splits)
next
  case other
  with assms(1) show ?thesis by simp
qed

lemma section_of_no_h2:
  assumes "no_h2 lines a b" and "a \<le> b"
  shows "section_of (take b lines) = section_of (take a lines)"
proof -
  have t: "take b lines = take a lines @ drop a (take b lines)"
    using assms(2) by (metis append_take_drop_id min.absorb1 take_take)
  have "\<forall>l\<in>set (drop a (take b lines)). \<not> startswith ''## '' (strip l)"
  proof
    fix l assume "l \<in> set (drop a (take b lines))"
    then obtain m where m: "m < length (drop a (take b lines))" "l = drop a (take b lines) ! m"
      by (metis in_set_conv_nth)
    then have am: "a + m < b" "a + m < length lines" by auto
    have "l = take b lines ! (a + m)" using m am by (simp add: nth_drop)
    then have "l = lines ! (a + m)" using am by simp
    moreover note am
    ultimately show "\<not> startswith ''## '' (strip l)" using assms(1) by (auto simp: no_h2_def)
  qed
  then have "filter (\<lambda>l. startswith ''## '' (strip l)) (drop a (take b lines)) = []"
    by (simp add: filter_empty_conv)
  then have "filter (\<lambda>l. startswith ''## '' (strip l)) (take b lines) =
      filter (\<lambda>l. startswith ''## '' (strip l)) (take a lines)"
    by (subst t) simp
  then show ?thesis by (simp add: section_of_def)
qed

lemma section_of_heading:
  assumes "i < length lines" and "startswith ''## '' (strip (lines ! i))"
  shows "section_of (take (Suc i) lines) = lower (strip (drop 3 (strip (lines ! i))))"
proof -
  let ?f = "filter (\<lambda>l. startswith ''## '' (strip l))"
  have f: "?f (take (Suc i) lines) = ?f (take i lines) @ [lines ! i]"
    using assms by (simp add: take_Suc_conv_app_nth)
  then have "?f (take (Suc i) lines) \<noteq> []" by simp
  then obtain h hs where h: "?f (take (Suc i) lines) = h # hs"
    by (auto simp: neq_Nil_conv)
  have "last (h # hs) = lines ! i" using f h by (metis last_snoc)
  then show ?thesis by (simp add: section_of_def h del: last.simps)
qed

text \<open>The section of the main loop is the section of the specification.\<close>

lemma loop_body_section_of:
  assumes "i < length lines" and "loop_body lines i cs d = Inr (j, cs', d')"
    and "cs = section_of (take i lines)"
  shows "cs' = section_of (take j lines)"
proof -
  note s = loop_body_section [OF assms(1,2)]
  then have 1: "section_of (take j lines) = section_of (take (Suc i) lines)"
    using section_of_no_h2 [of lines "Suc i" j] by simp
  show ?thesis
  proof (cases "startswith ''## '' (strip (lines ! i))")
    case True
    then show ?thesis using s 1 section_of_heading [OF assms(1)] by simp
  next
    case False
    then have "no_h2 lines i (Suc i)" by (simp add: no_h2_single)
    then have "section_of (take (Suc i) lines) = section_of (take i lines)"
      using section_of_no_h2 [of lines i "Suc i"] by simp
    then show ?thesis using s 1 False assms(3) by simp
  qed
qed

text \<open>The main loop up to an index that it cannot pass over.\<close>

lemma parse_loop_until:
  assumes "I i cs d" and "i \<le> k"
    and "\<And>i cs d j cs' d'. I i cs d \<Longrightarrow> i < k \<Longrightarrow> i < length lines \<Longrightarrow>
           loop_body lines i cs d = Inr (j, cs', d') \<Longrightarrow> I j cs' d' \<and> j \<le> k"
    and "k \<le> length lines"
  shows "\<exists>cs' d'. parse_loop lines i cs d = parse_loop lines k cs' d' \<and> I k cs' d'"
  using assms(1,2)
proof (induction "k - i" arbitrary: i cs d rule: less_induct)
  case less
  show ?case
  proof (cases "i = k")
    case True
    with less.prems show ?thesis by blast
  next
    case False
    with less.prems have ik: "i < k" by simp
    with assms(4) have il: "i < length lines" by simp
    obtain j cs' d' where b: "loop_body lines i cs d = Inr (j, cs', d')" "i < j"
      using loop_body_ok [OF il] by blast
    have I': "I j cs' d' \<and> j \<le> k" using assms(3) [OF less.prems(1) ik il b(1)] .
    have "k - j < k - i" using ik b(2) by simp
    from less.hyps [OF this] I'
    obtain cs'' d'' where r: "parse_loop lines j cs' d' = parse_loop lines k cs'' d''" "I k cs'' d''"
      by blast
    have "parse_loop lines i cs d = parse_loop lines j cs' d'"
      by (subst parse_loop.simps) (simp add: il b(1))
    with r show ?thesis by metis
  qed
qed

lemma drop_Suc_tl: "drop (Suc n) xs = tl (drop n xs)"
  by (simp add: drop_Suc tl_drop)

section \<open>The Item after a third-level heading\<close>

text \<open>
  Claim C4, as amended. For every Item parsed at a third-level heading whose subtitle
  candidate (the line at hand after the blank lines and the meta line) is no first- or
  third-level heading: meta is set, with every bold marker removed, if and only if the
  next non-blank line starts with the bold marker; subtitle is set if and only if the
  line at hand after that is not blank, does not start with \<^verbatim>\<open>-\<close> and is no
  heading; the bullets are exactly the \<^verbatim>\<open>- \<close> lines that follow, up to the next
  second- or third-level heading; and the parse ends at that heading.
\<close>

theorem parse_item_spec:
  assumes "\<forall>s. subtitle_candidate (drop (Suc i) lines) = Some s \<longrightarrow>
             \<not> startswith ''# '' s \<and> \<not> startswith ''### '' s"
  shows "parse_item lines i line =
    Inr (Suc i + snd (spec_item line (drop (Suc i) lines)),
         fst (spec_item line (drop (Suc i) lines)))"
proof -
  define f where "f = drop (Suc i) lines"
  define rest0 where "rest0 = dropWhile is_blank f"
  define has_meta where "has_meta \<longleftrightarrow> rest0 \<noteq> [] \<and> startswith ''**'' (strip (hd rest0))"
  define rest1 where "rest1 = (if has_meta then tl rest0 else rest0)"
  define has_sub where "has_sub \<longleftrightarrow> rest1 \<noteq> [] \<and> \<not> is_blank (hd rest1) \<and>
     \<not> startswith ''-'' (strip (hd rest1)) \<and> \<not> is_heading (strip (hd rest1))"
  define rest2 where "rest2 = (if has_sub then tl rest1 else rest1)"
  define body where "body = takeWhile (\<lambda>l. \<not> startswith ''## '' (strip l) \<and> \<not> startswith ''### '' (strip l)) rest2"
  define i1 where "i1 = Suc i + length (takeWhile is_blank f)"
  define i2 where "i2 = (if has_meta then Suc i1 else i1)"
  define i3 where "i3 = (if has_sub then Suc i2 else i2)"
  have s0: "skip_blank lines (Suc i) = Inr i1"
    by (simp add: skip_blank_eq i1_def f_def)
  have d1: "drop i1 lines = rest0"
    by (simp add: i1_def rest0_def f_def dropWhile_eq_drop add.commute)
  have n1: "i1 = Suc i + (length f - length rest0) \<and> length rest0 \<le> length f"
    unfolding i1_def rest0_def dropWhile_eq_drop
    using length_takeWhile_le [of is_blank f] by simp
  have s1: "item_meta lines i1 =
      Inr (i2, if has_meta then strip (replace ''**'' [] (strip (hd rest0))) else [])"
    by (cases rest0) (simp_all add: item_meta_eq d1 has_meta_def i2_def)
  have d2: "drop i2 lines = rest1"
    by (simp add: i2_def rest1_def drop_Suc_tl d1)
  have n2: "i2 = Suc i + (length f - length rest1) \<and> length rest1 \<le> length f"
    using n1 by (cases rest0) (auto simp: i2_def rest1_def has_meta_def)
  have cand: "subtitle_candidate (drop (Suc i) lines) =
      (if rest1 = [] then None else Some (strip (hd rest1)))"
    unfolding subtitle_candidate_def Let_def
    by (simp only: f_def [symmetric] rest0_def [symmetric] has_meta_def [symmetric]
        rest1_def [symmetric])
  have hs: "has_sub \<longleftrightarrow> rest1 \<noteq> [] \<and> \<not> is_blank (hd rest1) \<and>
     \<not> startswith ''-'' (strip (hd rest1)) \<and> \<not> startswith ''## '' (strip (hd rest1))"
    using assms cand by (auto simp: has_sub_def is_heading_def)
  have s2: "item_subtitle lines i2 = Inr (i3, if has_sub then strip (hd rest1) else [])"
    by (cases rest1) (simp_all add: item_subtitle_eq d2 hs i3_def)
  have d3: "drop i3 lines = rest2"
    by (simp add: i3_def rest2_def drop_Suc_tl d2)
  have n3: "i3 = Suc i + (length f - length rest2)"
    using n2 by (cases rest1) (auto simp: i3_def rest2_def has_sub_def)
  have s3: "collect_bullets lines i3 [] =
      Inr (i3 + length body,
           map (\<lambda>l. strip (drop 2 (strip l))) (filter (\<lambda>l. startswith ''- '' (strip l)) body))"
    by (simp add: collect_bullets_eq d3 body_def)
  have "parse_item lines i line =
      Inr (i3 + length body,
        \<lparr>title = strip (drop 4 line),
         meta = (if has_meta then strip (replace ''**'' [] (strip (hd rest0))) else []),
         subtitle = (if has_sub then strip (hd rest1) else []),
         bullets = map (\<lambda>l. strip (drop 2 (strip l))) (filter (\<lambda>l. startswith ''- '' (strip l)) body)\<rparr>)"
    by (simp add: parse_item_def s0 s1 s2 s3)
  moreover have "spec_item line (drop (Suc i) lines) =
      (\<lparr>title = strip (drop 4 line),
         meta = (if has_meta then strip (replace ''**'' [] (strip (hd rest0))) else []),
         subtitle = (if has_sub then strip (hd rest1) else []),
         bullets = map (\<lambda>l. strip (drop 2 (strip l))) (filter (\<lambda>l. startswith ''- '' (strip l)) body)\<rparr>,
       length f - length rest2 + length body)"
    unfolding spec_item_def Let_def
    by (simp only: f_def [symmetric] rest0_def [symmetric] has_meta_def [symmetric]
        rest1_def [symmetric] has_sub_def [symmetric] rest2_def [symmetric] body_def [symmetric])
  ultimately show ?thesis
    by (simp add: n3)
qed

theorem parse_item_spec_witness:
  "subtitle_candidate (drop (Suc (Suc 0))
      [''## Experience'', ''### Senior Engineer'', ''**Acme Corp | 2020-2023**'', ''Remote'',
       ''- Built things'', ''- Led a team'']) = Some ''Remote'' \<and>
   parse_item
      [''## Experience'', ''### Senior Engineer'', ''**Acme Corp | 2020-2023**'', ''Remote'',
       ''- Built things'', ''- Led a team''] (Suc 0) ''### Senior Engineer'' =
     Inr (6, \<lparr>title = ''Senior Engineer'', meta = ''Acme Corp | 2020-2023'', subtitle = ''Remote'',
              bullets = [''Built things'', ''Led a team'']\<rparr>)"
proof -
  let ?L = "[''## Experience'', ''### Senior Engineer'', ''**Acme Corp | 2020-2023**'', ''Remote'',
       ''- Built things'', ''- Led a team'']"
  have c: "subtitle_candidate (drop (Suc (Suc 0)) ?L) = Some ''Remote''"
    by code_simp
  have n: "\<not> startswith ''# '' ''Remote'' \<and> \<not> startswith ''### '' ''Remote''"
    by code_simp
  have h: "\<forall>s. subtitle_candidate (drop (Suc (Suc 0)) ?L) = Some s \<longrightarrow>
             \<not> startswith ''# '' s \<and> \<not> startswith ''### '' s"
    using n c by simp
  have e: "spec_item ''### Senior Engineer'' (drop (Suc (Suc 0)) ?L) =
      (\<lparr>title = ''Senior Engineer'', meta = ''Acme Corp | 2020-2023'', subtitle = ''Remote'',
              bullets = [''Built things'', ''Led a team'']\<rparr>, 4)"
    by code_simp
  show ?thesis
    using parse_item_spec [OF h, of "''### Senior Engineer''"] c e by simp
qed

text \<open>
  Claim C4 as stated fails: the line \<^verbatim>\<open>**Acme\<close> is not wrapped in bold markers, and
  it is taken as the meta all the same.
\<close>

theorem meta_without_closing_marker:
  "parse_markdown ''### T\<newline>**Acme'' =
     Inr (empty_data\<lparr>experience := [\<lparr>title = ''T'', meta = ''Acme'', subtitle = [], bullets = []\<rparr>]\<rparr>) \<and>
   \<not> endswith ''**'' ''**Acme''"
  by code_simp

section \<open>The parser returns a complete record\<close>




section \<open>The name\<close>

text \<open>
  Claim C9, as amended. The name is empty when no line is a first-level heading; and
  it is the trimmed remainder of the first first-level heading when no heading of the
  second or third level comes before that line. For the single line
  \<^verbatim>\<open># Jane Doe\<close> it is \<^verbatim>\<open>Jane Doe\<close>.
\<close>

theorem name_first_heading:
  "\<exists>r. parse_markdown md_text = Inr r \<and>
     ((\<forall>l\<in>set (splitlines md_text). \<not> startswith ''# '' (strip l)) \<longrightarrow> name r = []) \<and>
     (\<forall>k<length (splitlines md_text).
        startswith ''# '' (strip (splitlines md_text ! k)) \<and>
        (\<forall>j<k. \<not> is_heading (strip (splitlines md_text ! j))) \<longrightarrow>
        name r = strip (drop 2 (strip (splitlines md_text ! k))))"
proof -
  let ?L = "splitlines md_text"
  let ?d0 = "empty_data\<lparr>image_from_md := find_image ?L\<rparr>"
  obtain r where r: "parse_loop ?L 0 [] ?d0 = Inr r"
    using parse_loop_invariant [of "\<lambda>i cs d. True" 0 "[]" ?d0 ?L] by auto
  then have pm: "parse_markdown md_text = Inr r" by (simp add: parse_markdown_def)
  have none: "name r = []" if A: "\<forall>l\<in>set ?L. \<not> startswith ''# '' (strip l)"
  proof -
    define I where "I i cs d \<longleftrightarrow> name d = []" for i :: nat and cs :: string and d :: data
    have I0: "I 0 [] ?d0" by (simp add: I_def empty_data_def)
    have step: "I j cs' d'"
      if n: "I i cs d" and il: "i < length ?L" and b: "loop_body ?L i cs d = Inr (j, cs', d')"
      for i cs d j cs' d'
    proof -
      have mem: "?L ! i \<in> set ?L" using il by simp
      from il b show ?thesis
        by (cases rule: loop_body_cases)
          (use n A mem in \<open>auto simp: I_def add_item_def add_contact_def\<close>)
    qed
    have "\<exists>r j cs'. parse_loop ?L 0 [] ?d0 = Inr r \<and> I j cs' r \<and> length ?L \<le> j"
      by (rule parse_loop_invariant [of I]) (rule I0, rule step)
    then obtain r' j cs' where "parse_loop ?L 0 [] ?d0 = Inr r'" "I j cs' r'"
      by blast
    with r show ?thesis by (simp add: I_def)
  qed
  have first: "name r = strip (drop 2 (strip (?L ! k)))"
    if kl: "k < length ?L" and hk: "startswith ''# '' (strip (?L ! k))"
      and before: "\<forall>j<k. \<not> is_heading (strip (?L ! j))" for k
  proof -
    let ?X = "strip (drop 2 (strip (?L ! k)))"
    have X: "?X \<noteq> []" using hk by (rule name_nonempty)
    define I where "I i cs d \<longleftrightarrow> (i \<le> k \<and> cs = [] \<and> name d = []) \<or> (k < i \<and> name d = ?X)"
      for i :: nat and cs :: string and d :: data
    have I0: "I 0 [] ?d0" by (simp add: I_def empty_data_def)
    have step: "I j cs' d'"
      if Ii: "I i cs d" and il: "i < length ?L" and b: "loop_body ?L i cs d = Inr (j, cs', d')"
      for i cs d j cs' d'
    proof -
      have ij: "i < j" using loop_body_section [OF il b] by simp
      consider (lt) "i < k" "cs = []" "name d = []" | (eq) "i = k" "cs = []" "name d = []"
        | (gt) "k < i" "name d = ?X"
        using Ii unfolding I_def by (metis le_neq_implies_less)
      then show ?thesis
      proof cases
        case lt
        then have nh: "\<not> is_heading (strip (?L ! i))" using before by simp
        from il b show ?thesis
          by (cases rule: loop_body_cases)
            (use lt nh in \<open>auto simp: I_def is_heading_def add_contact_def\<close>)
      next
        case eq
        from il b show ?thesis
          by (cases rule: loop_body_cases)
            (use eq hk in \<open>auto simp: I_def is_image_def startswith_Cons split: list.splits\<close>)
      next
        case gt
        from il b show ?thesis
          by (cases rule: loop_body_cases)
            (use gt X ij in \<open>auto simp: I_def add_item_def add_contact_def\<close>)
      qed
    qed
    have "\<exists>r j cs'. parse_loop ?L 0 [] ?d0 = Inr r \<and> I j cs' r \<and> length ?L \<le> j"
      by (rule parse_loop_invariant [of I]) (rule I0, rule step)
    then obtain r' j cs' where r': "parse_loop ?L 0 [] ?d0 = Inr r'" and Ir: "I j cs' r'"
      and jl: "length ?L \<le> j"
      by blast
    from Ir jl kl have "name r' = ?X" by (auto simp: I_def)
    with r r' show ?thesis by simp
  qed
  from pm none first show ?thesis by blast
qed

theorem name_first_heading_witness:
  "(\<exists>r. parse_markdown ''# Jane Doe'' = Inr r \<and> name r = ''Jane Doe'') \<and>
   (\<exists>r. parse_markdown ''Jane Doe'' = Inr r \<and> name r = [])"
proof -
  have s1: "splitlines ''# Jane Doe'' = [''# Jane Doe'']" by code_simp
  have s2: "strip ''# Jane Doe'' = ''# Jane Doe''" by code_simp
  have s3: "strip ''Jane Doe'' = ''Jane Doe''" by code_simp
  have s4: "startswith ''# '' ''# Jane Doe''" by code_simp
  have t1: "splitlines ''Jane Doe'' = [''Jane Doe'']" by code_simp
  have t2: "\<not> startswith ''# '' ''Jane Doe''" by code_simp
  show ?thesis
    using name_first_heading [of "''# Jane Doe''"] name_first_heading [of "''Jane Doe''"]
    by (simp add: s1 s2 s3 s4 t1 t2)
qed

text \<open>
  Claim C9 as stated fails: a first-level heading inside a summary run is read as
  summary text, and the name stays empty.
\<close>

theorem heading_inside_summary:
  "parse_markdown ''## Professional Summary\<newline>Engineer\<newline># Jane Doe'' =
     Inr (empty_data\<lparr>summary := ''Engineer # Jane Doe''\<rparr>)"
  by code_simp

section \<open>Where the Items go\<close>

lemma item_events_step:
  assumes "i < length lines" and "loop_body lines i cs d = Inr (j, cs', d')"
  shows "if startswith ''### '' (strip (lines ! i))
         then \<exists>it. parse_item lines i (strip (lines ! i)) = Inr (j, it) \<and> d' = add_item cs it d \<and>
                item_events lines i cs d = (i, it) # item_events lines j cs' d'
         else item_events lines i cs d = item_events lines j cs' d' \<and>
                experience d' = experience d \<and> projects d' = projects d"
proof -
  obtain j0 it0 where p: "parse_item lines i (strip (lines ! i)) = Inr (j0, it0)"
    using parse_item_ok by blast
  have ev: "item_events lines i cs d =
      (if startswith ''### '' (strip (lines ! i)) then [(i, it0)] else []) @ item_events lines j cs' d'"
    by (subst item_events.simps) (simp add: assms p)
  from assms show ?thesis
  proof (cases rule: loop_body_cases)
    case (item it)
    with p ev show ?thesis by simp
  next
    case blank
    with ev show ?thesis by simp
  next
    case image
    with ev show ?thesis by (auto simp: is_image_def startswith_Cons split: list.splits)
  next
    case name
    with ev show ?thesis by (auto simp: startswith_Cons split: list.splits)
  next
    case role
    with ev show ?thesis by (auto simp: startswith_Cons split: list.splits)
  next
    case heading
    with ev show ?thesis by (auto simp: startswith_Cons split: list.splits)
  next
    case (summary parts)
    with ev show ?thesis by simp
  next
    case skill
    with ev show ?thesis by (auto simp: startswith_Cons split: list.splits)
  next
    case fit
    with ev show ?thesis by (auto simp: startswith_Cons split: list.splits)
  next
    case other
    with ev show ?thesis by (simp add: add_contact_def)
  qed
qed

lemma items_routed_from:
  assumes "cs = section_of (take i lines)"
  shows "\<exists>r. parse_loop lines i cs d = Inr r \<and>
    experience r = experience d @ map snd (filter (\<lambda>(k, it). \<not> project_section (section_of (take k lines)))
      (item_events lines i cs d)) \<and>
    projects r = projects d @ map snd (filter (\<lambda>(k, it). project_section (section_of (take k lines)))
      (item_events lines i cs d)) \<and>
    (\<forall>(k, it)\<in>set (item_events lines i cs d). i \<le> k \<and> k < length lines \<and>
       startswith ''### '' (strip (lines ! k)) \<and> title it = strip (drop 4 (strip (lines ! k)))) \<and>
    sorted_wrt (<) (map fst (item_events lines i cs d))"
  using assms
proof (induction "length lines - i" arbitrary: i cs d rule: less_induct)
  case less
  show ?case
  proof (cases "i < length lines")
    case False
    then show ?thesis
      by (subst parse_loop.simps, subst (1 2 3 4) item_events.simps) simp
  next
    case True
    obtain j cs' d' where b: "loop_body lines i cs d = Inr (j, cs', d')" and ij: "i < j"
      using loop_body_ok [OF True] by blast
    have cs': "cs' = section_of (take j lines)"
      using loop_body_section_of [OF True b less.prems] .
    have "length lines - j < length lines - i" using True ij by simp
    from less.hyps [OF this cs', of d']
    obtain r where r: "parse_loop lines j cs' d' = Inr r"
      and e: "experience r = experience d' @ map snd (filter (\<lambda>(k, it). \<not> project_section (section_of (take k lines)))
          (item_events lines j cs' d'))"
      and pr: "projects r = projects d' @ map snd (filter (\<lambda>(k, it). project_section (section_of (take k lines)))
          (item_events lines j cs' d'))"
      and al: "\<forall>(k, it)\<in>set (item_events lines j cs' d'). j \<le> k \<and> k < length lines \<and>
         startswith ''### '' (strip (lines ! k)) \<and> title it = strip (drop 4 (strip (lines ! k)))"
      and so: "sorted_wrt (<) (map fst (item_events lines j cs' d'))"
      by blast
    have pl: "parse_loop lines i cs d = Inr r"
      by (subst parse_loop.simps) (simp add: True b r)
    have al': "\<forall>(k, it)\<in>set (item_events lines j cs' d'). i < k \<and> i \<le> k \<and> k < length lines \<and>
         startswith ''### '' (strip (lines ! k)) \<and> title it = strip (drop 4 (strip (lines ! k)))"
      using al ij by auto
    note st = item_events_step [OF True b]
    show ?thesis
    proof (cases "startswith ''### '' (strip (lines ! i))")
      case h: True
      with st obtain it where it: "parse_item lines i (strip (lines ! i)) = Inr (j, it)"
        "d' = add_item cs it d" "item_events lines i cs d = (i, it) # item_events lines j cs' d'"
        by auto
      have ti: "title it = strip (drop 4 (strip (lines ! i)))"
        using parse_item_skips [OF it(1) True] by simp
      have ps: "project_section (section_of (take i lines)) \<longleftrightarrow>
          contains ''project'' cs \<or> contains ''highlight'' cs"
        by (simp add: project_section_def less.prems)
      show ?thesis
        using pl e pr al' so h True ti
        by (auto simp: it(2,3) add_item_def ps)
    next
      case h: False
      with st have "item_events lines i cs d = item_events lines j cs' d'"
        "experience d' = experience d" "projects d' = projects d"
        by auto
      then show ?thesis
        using pl e pr al' so by auto
    qed
  qed
qed

text \<open>
  Claim C7. Every Item the parser parses goes to \<open>projects\<close> when the section of its
  heading (the lower-cased text of the nearest second-level heading before it, empty when
  there is none) contains \<^verbatim>\<open>project\<close> or \<^verbatim>\<open>highlight\<close>, and to \<open>experience\<close>
  otherwise; no Item is dropped, and each list keeps the order of the document.
\<close>

theorem items_routed:
  "\<exists>r. parse_markdown md_text = Inr r \<and>
     experience r = map snd (filter (\<lambda>(k, it). \<not> project_section (section_of (take k (splitlines md_text))))
       (parsed_items md_text)) \<and>
     projects r = map snd (filter (\<lambda>(k, it). project_section (section_of (take k (splitlines md_text))))
       (parsed_items md_text)) \<and>
     (\<forall>(k, it)\<in>set (parsed_items md_text). k < length (splitlines md_text) \<and>
        startswith ''### '' (strip (splitlines md_text ! k)) \<and>
        title it = strip (drop 4 (strip (splitlines md_text ! k)))) \<and>
     sorted_wrt (<) (map fst (parsed_items md_text))"
proof -
  have s: "[] = section_of (take 0 (splitlines md_text))" by (simp add: section_of_def)
  show ?thesis
    using items_routed_from [OF s, of "empty_data\<lparr>image_from_md := find_image (splitlines md_text)\<rparr>"]
    by (auto simp: parse_markdown_def parsed_items_def Let_def empty_data_def)
qed

theorem items_routed_witness:
  "\<exists>r. parse_markdown ''## Experience\<newline>### A\<newline>- x\<newline>## Project Highlights\<newline>### B\<newline>## Other\<newline>### C'' = Inr r \<and>
     experience r = [\<lparr>title = ''A'', meta = [], subtitle = [], bullets = [''x'']\<rparr>,
                     \<lparr>title = ''C'', meta = [], subtitle = [], bullets = []\<rparr>] \<and>
     projects r = [\<lparr>title = ''B'', meta = [], subtitle = [], bullets = []\<rparr>]"
proof -
  let ?md = "''## Experience\<newline>### A\<newline>- x\<newline>## Project Highlights\<newline>### B\<newline>## Other\<newline>### C''"
  have l: "splitlines ?md = [''## Experience'', ''### A'', ''- x'', ''## Project Highlights'', ''### B'', ''## Other'', ''### C'']"
    by code_simp
  have p: "parsed_items ?md =
      [(1, \<lparr>title = ''A'', meta = [], subtitle = [], bullets = [''x'']\<rparr>),
       (4, \<lparr>title = ''B'', meta = [], subtitle = [], bullets = []\<rparr>),
       (6, \<lparr>title = ''C'', meta = [], subtitle = [], bullets = []\<rparr>)]"
    by code_simp
  have s1: "project_section (section_of (take (Suc 0) (splitlines ?md))) = False" by code_simp
  have s4: "project_section (section_of (take 4 (splitlines ?md))) = True" by code_simp
  have s6: "project_section (section_of (take 6 (splitlines ?md))) = False" by code_simp
  show ?thesis
    using items_routed [of ?md] unfolding p by (auto simp: s1 s4 s6)
qed

section \<open>The contacts\<close>







lemma loop_body_heading:
  assumes "i < length lines" and "startswith ''## '' (strip (lines ! i))"
  shows "loop_body lines i cs d = Inr (Suc i, lower (strip (drop 3 (strip (lines ! i)))), d)"
proof -
  obtain j cs' d' where b: "loop_body lines i cs d = Inr (j, cs', d')"
    using loop_body_ok [OF assms(1)] by blast
  from assms(1) b show ?thesis
    by (cases rule: loop_body_cases)
      (use assms(2) b in \<open>auto simp: is_image_def startswith_Cons split: list.splits\<close>)
qed





text \<open>
  The test for a duplicate reads the line before its backslashes are stripped, and the
  stripped line is stored: a line that ends with a backslash is stored again.
\<close>

lemma contacts_repeated_after_backslash:
  "parse_markdown (''a'' @ [CHR 0x5C] @ ''\<newline>a'' @ [CHR 0x5C]) =
     Inr (empty_data\<lparr>contacts := [''a'', ''a'']\<rparr>)"
  by code_simp

section \<open>The summary\<close>

lemma strip_id:
  assumes "s \<noteq> []" and "\<not> isspace (hd s)" and "\<not> isspace (last s)"
  shows "strip s = s"
proof -
  have 1: "dropWhile isspace s = s" using assms(1,2) by (cases s) auto
  obtain t x where tx: "s = t @ [x]" using assms(1) by (metis rev_exhaust)
  then have "\<not> isspace x" using assms(3) by simp
  then have 2: "dropWhile isspace (rev s) = rev s" by (simp add: tx)
  show ?thesis
    by (simp add: strip_def strip_chars_def rstrip_chars_def lstrip_chars_def 1 2)
qed

lemma last_dropWhile: "dropWhile P xs \<noteq> [] \<Longrightarrow> last (dropWhile P xs) = last xs"
  by (metis last_appendR takeWhile_dropWhile_id)

lemma strip_hd: "strip s \<noteq> [] \<Longrightarrow> \<not> isspace (hd (strip s))"
proof -
  assume n: "strip s \<noteq> []"
  let ?u = "dropWhile isspace s"
  let ?v = "dropWhile isspace (rev ?u)"
  have s: "strip s = rev ?v"
    by (simp add: strip_def strip_chars_def rstrip_chars_def lstrip_chars_def)
  with n have v: "?v \<noteq> []" by simp
  have u: "?u \<noteq> []"
  proof
    assume e: "?u = []"
    have "?v = []" unfolding e by simp
    with v show False by simp
  qed
  have "hd (strip s) = last ?v" using v by (simp add: s hd_rev)
  also have "\<dots> = last (rev ?u)" using v by (rule last_dropWhile)
  also have "\<dots> = hd ?u" using u by (simp add: last_rev)
  finally show ?thesis using hd_dropWhile [OF u] by simp
qed

lemma trimmed_strip: "strip l \<noteq> [] \<Longrightarrow> trimmed (strip l)"
  by (simp add: trimmed_def strip_hd strip_last)

lemma trimmed_join:
  "parts \<noteq> [] \<Longrightarrow> \<forall>p\<in>set parts. trimmed p \<Longrightarrow> trimmed (join sep parts)"
proof (induction sep parts rule: join.induct)
  case (1 sep)
  then show ?case by simp
next
  case (2 sep x)
  then show ?case by simp
next
  case (3 sep x y ys)
  then have "trimmed (join sep (y # ys))" by simp
  moreover have "trimmed x" using 3 by simp
  ultimately show ?case by (auto simp: trimmed_def)
qed

lemma strip_join:
  assumes "run \<noteq> []" and "\<forall>l\<in>set run. \<not> is_blank l"
  shows "strip (join sep (map strip run)) = join sep (map strip run)"
proof -
  have "\<forall>p\<in>set (map strip run). trimmed p"
    using assms(2) by (auto simp: is_blank_def trimmed_strip)
  then have "trimmed (join sep (map strip run))"
    using assms(1) by (intro trimmed_join) simp_all
  then show ?thesis by (simp add: trimmed_def strip_id)
qed

lemma loop_body_blank:
  "i < length lines \<Longrightarrow> is_blank (lines ! i) \<Longrightarrow> loop_body lines i cs d = Inr (Suc i, cs, d)"
  by (simp add: loop_body_def getitem_less is_blank_def)

lemma loop_body_summary:
  assumes "i < length lines" and "plain_line (strip (lines ! i))"
  shows "loop_body lines i ''professional summary'' d =
    Inr (Suc i + length (takeWhile (\<lambda>l. \<not> is_blank l \<and> \<not> startswith ''## '' (strip l)) (drop (Suc i) lines)),
         ''professional summary'',
         d\<lparr>summary := strip (join '' '' (strip (lines ! i) #
            map strip (takeWhile (\<lambda>l. \<not> is_blank l \<and> \<not> startswith ''## '' (strip l)) (drop (Suc i) lines))))\<rparr>)"
  using assms
  by (auto simp: loop_body_def getitem_less plain_line_def is_heading_def collect_summary_eq Let_def)

lemma takeWhile_section:
  assumes "\<forall>x\<in>set ls. is_blank x \<or> plain_line (strip x)"
    and "rest = [] \<or> startswith ''## '' (strip (hd rest))"
  shows "takeWhile (\<lambda>l. \<not> is_blank l \<and> \<not> startswith ''## '' (strip l)) (ls @ rest) =
         takeWhile (\<lambda>x. \<not> is_blank x) ls"
  using assms(1)
proof (induction ls)
  case Nil
  from assms(2) show ?case by (cases rest) auto
next
  case (Cons x xs)
  then show ?case by (auto simp: plain_line_def is_heading_def)
qed

lemma runs_Nil_iff: "runs s = [] \<longleftrightarrow> (\<forall>l\<in>set s. is_blank l)"
  by (induction s rule: runs.induct) (auto simp: runs.simps)

text \<open>
  The main loop over a summary section of blank and plain lines: the summary it leaves is
  the last run of the section.
\<close>

lemma summary_section:
  assumes "lines = front @ s @ rest"
    and "\<forall>l\<in>set s. is_blank l \<or> plain_line (strip l)"
    and "rest = [] \<or> startswith ''## '' (strip (hd rest))"
  shows "parse_loop lines (length front) ''professional summary'' d =
    parse_loop lines (length front + length s) ''professional summary''
      (if runs s = [] then d else d\<lparr>summary := join '' '' (map strip (last (runs s)))\<rparr>)"
  using assms(1,2)
proof (induction s arbitrary: front d rule: runs.induct)
  case 1
  show ?case by (simp add: runs.simps)
next
  case (2 l ls)
  let ?i = "length front"
  have il: "?i < length lines" and li: "lines ! ?i = l"
    by (simp_all add: "2.prems"(1))
  have dr: "drop (Suc ?i) lines = ls @ rest" by (simp add: "2.prems"(1))
  show ?case
  proof (cases "is_blank l")
    case True
    have "parse_loop lines ?i ''professional summary'' d =
        parse_loop lines (Suc ?i) ''professional summary'' d"
      by (subst parse_loop.simps) (simp add: il loop_body_blank li True)
    moreover have "parse_loop lines (length (front @ [l])) ''professional summary'' d =
        parse_loop lines (length (front @ [l]) + length ls) ''professional summary''
          (if runs ls = [] then d else d\<lparr>summary := join '' '' (map strip (last (runs ls)))\<rparr>)"
      using "2.prems" by (intro "2.IH"(1) [OF True]) simp_all
    ultimately show ?thesis by (simp add: runs.simps True)
  next
    case False
    let ?tw = "takeWhile (\<lambda>x. \<not> is_blank x) ls"
    let ?dw = "dropWhile (\<lambda>x. \<not> is_blank x) ls"
    let ?d1 = "d\<lparr>summary := join '' '' (map strip (l # ?tw))\<rparr>"
    have pl: "plain_line (strip l)" using "2.prems"(2) False by simp
    have tw: "takeWhile (\<lambda>l. \<not> is_blank l \<and> \<not> startswith ''## '' (strip l)) (ls @ rest) = ?tw"
      using "2.prems"(2) assms(3) by (intro takeWhile_section) simp_all
    have nb: "\<forall>x\<in>set (l # ?tw). \<not> is_blank x"
      using False by (auto dest: set_takeWhileD)
    have sj: "strip (join '' '' (map strip (l # ?tw))) = join '' '' (map strip (l # ?tw))"
      using nb by (intro strip_join) simp_all
    have b: "loop_body lines ?i ''professional summary'' d =
        Inr (Suc ?i + length ?tw, ''professional summary'', ?d1)"
      using loop_body_summary [OF il, of d] pl sj by (simp add: li dr tw)
    have 1: "parse_loop lines ?i ''professional summary'' d =
        parse_loop lines (Suc ?i + length ?tw) ''professional summary'' ?d1"
      by (subst parse_loop.simps) (simp add: il b)
    have 2: "parse_loop lines (length (front @ l # ?tw)) ''professional summary'' ?d1 =
        parse_loop lines (length (front @ l # ?tw) + length ?dw) ''professional summary''
          (if runs ?dw = [] then ?d1 else ?d1\<lparr>summary := join '' '' (map strip (last (runs ?dw)))\<rparr>)"
    proof (rule "2.IH"(2) [OF False])
      show "lines = (front @ l # ?tw) @ ?dw @ rest" by (simp add: "2.prems"(1))
      show "\<forall>l\<in>set ?dw. is_blank l \<or> plain_line (strip l)"
        using "2.prems"(2) by (auto dest: set_dropWhileD)
    qed
    have len: "length ?tw + length ?dw = length ls"
      by (metis length_append takeWhile_dropWhile_id)
    have r: "runs (l # ls) = (l # ?tw) # runs ?dw" by (simp add: runs.simps False)
    show ?thesis
      using 1 2 len by (simp add: r add.assoc)
  qed
qed

text \<open>Outside a summary section the summary stays as it is.\<close>

lemma summary_kept:
  assumes "\<forall>k. i \<le> k \<and> k < length lines \<longrightarrow> \<not> summary_heading (lines ! k)"
    and "cs \<noteq> ''professional summary'' \<or> (i < length lines \<longrightarrow> startswith ''## '' (strip (lines ! i)))"
  shows "\<exists>r. parse_loop lines i cs d = Inr r \<and> summary r = summary d"
proof -
  define I where "I k c e \<longleftrightarrow> summary e = summary d \<and> i \<le> k \<and>
      (c \<noteq> ''professional summary'' \<or> (k = i \<and> (i < length lines \<longrightarrow> startswith ''## '' (strip (lines ! i)))))"
    for k :: nat and c :: string and e :: data
  have I0: "I i cs d" using assms(2) by (auto simp: I_def)
  have step: "I j c' e'"
    if Ik: "I k c e" and kl: "k < length lines" and b: "loop_body lines k c e = Inr (j, c', e')"
    for k c e j c' e'
  proof -
    have kj: "k < j" using loop_body_section [OF kl b] by simp
    have nsh: "\<not> summary_heading (lines ! k)" using assms(1) Ik kl by (simp add: I_def)
    show ?thesis
    proof (cases "c \<noteq> ''professional summary''")
      case True
      from kl b show ?thesis
        by (cases rule: loop_body_cases)
          (use Ik True kj nsh in \<open>auto simp: I_def add_item_def add_contact_def summary_heading_def\<close>)
    next
      case False
      with Ik kl have h: "startswith ''## '' (strip (lines ! k))" by (auto simp: I_def)
      have "loop_body lines k c e = Inr (Suc k, lower (strip (drop 3 (strip (lines ! k)))), e)"
        using loop_body_heading [OF kl h] .
      with b Ik h nsh show ?thesis by (auto simp: I_def summary_heading_def)
    qed
  qed
  have "\<exists>r j cs'. parse_loop lines i cs d = Inr r \<and> I j cs' r \<and> length lines \<le> j"
    by (rule parse_loop_invariant [of I]) (rule I0, rule step)
  then show ?thesis by (auto simp: I_def)
qed

text \<open>
  Claim C3, as amended. When the text has a \<^verbatim>\<open>professional summary\<close> heading, the
  section after it (up to the next second-level heading, or the end) is made of blank
  and plain lines with at least one plain line, and no later heading opens a summary
  section again, the summary is the single-space join of the trimmed lines of the LAST
  run of the section: each run replaces the one before it.
\<close>

theorem summary_last_run:
  assumes "splitlines md_text = before @ [hdr] @ sect @ rest"
    and "summary_heading hdr"
    and "\<forall>l\<in>set sect. is_blank l \<or> plain_line (strip l)"
    and "\<exists>l\<in>set sect. \<not> is_blank l"
    and "rest = [] \<or> startswith ''## '' (strip (hd rest))"
    and "\<forall>l\<in>set rest. \<not> summary_heading l"
  shows "\<exists>r. parse_markdown md_text = Inr r \<and>
           summary r = join '' '' (map strip (last (runs sect)))"
proof -
  let ?L = "splitlines md_text"
  let ?d0 = "empty_data\<lparr>image_from_md := find_image ?L\<rparr>"
  let ?h = "length before"
  let ?e = "length (before @ [hdr]) + length sect"
  have hl: "?h < length ?L" and lh: "?L ! ?h = hdr" by (simp_all add: assms(1))
  have hh: "startswith ''## '' (strip (?L ! ?h))"
    using assms(2) by (simp add: lh summary_heading_def)
  have step: "True \<and> j \<le> ?h"
    if ih: "i < ?h" and il: "i < length ?L" and b: "loop_body ?L i cs d = Inr (j, cs', d')"
    for i cs d j cs' d'
  proof -
    have "no_h2 ?L (Suc i) j" using loop_body_section [OF il b] by simp
    then have "\<not> (Suc i \<le> ?h \<and> ?h < j)" using hl hh unfolding no_h2_def by blast
    with ih show ?thesis by simp
  qed
  have "\<exists>cs' d'. parse_loop ?L 0 [] ?d0 = parse_loop ?L ?h cs' d' \<and> True"
    by (rule parse_loop_until [of "\<lambda>i cs d. True"]) (simp, simp, rule step, assumption+, use hl in simp)
  then obtain cs1 d1 where p1: "parse_loop ?L 0 [] ?d0 = parse_loop ?L ?h cs1 d1" by blast
  have p2: "parse_loop ?L ?h cs1 d1 = parse_loop ?L (Suc ?h) ''professional summary'' d1"
    using assms(2)
    by (subst parse_loop.simps) (simp add: hl loop_body_heading [OF hl hh] lh summary_heading_def)
  have rn: "runs sect \<noteq> []" using assms(4) by (simp add: runs_Nil_iff)
  have p3: "parse_loop ?L (length (before @ [hdr])) ''professional summary'' d1 =
      parse_loop ?L ?e ''professional summary''
        (d1\<lparr>summary := join '' '' (map strip (last (runs sect)))\<rparr>)"
    using summary_section [of ?L "before @ [hdr]" sect rest d1] assms(1,3,5) rn by simp
  have el: "?e \<le> length ?L" by (simp add: assms(1))
  define pre where "pre = before @ [hdr] @ sect"
  have Lp: "?L = pre @ rest" and lp: "length pre = ?e" by (simp_all add: pre_def assms(1))
  have rest_at: "?L ! k \<in> set rest" if "?e \<le> k" "k < length ?L" for k
  proof -
    have "?L ! k = rest ! (k - ?e)" using that unfolding Lp by (simp add: nth_append lp)
    moreover have "k - ?e < length rest" using that unfolding Lp by (simp add: lp)
    ultimately show ?thesis by simp
  qed
  have 4: "\<forall>k. ?e \<le> k \<and> k < length ?L \<longrightarrow> \<not> summary_heading (?L ! k)"
    using rest_at assms(6) by blast
  have 5: "?e < length ?L \<longrightarrow> startswith ''## '' (strip (?L ! ?e))"
  proof
    assume l: "?e < length ?L"
    then have "rest \<noteq> []" by (simp add: assms(1))
    moreover have "?L ! ?e = rest ! 0" unfolding Lp by (simp add: nth_append lp)
    ultimately show "startswith ''## '' (strip (?L ! ?e))"
      using assms(5) by (simp add: hd_conv_nth)
  qed
  obtain r where r: "parse_loop ?L ?e ''professional summary''
        (d1\<lparr>summary := join '' '' (map strip (last (runs sect)))\<rparr>) = Inr r"
      "summary r = join '' '' (map strip (last (runs sect)))"
    using summary_kept [OF 4, of "''professional summary''"
        "d1\<lparr>summary := join '' '' (map strip (last (runs sect)))\<rparr>"] 5
    by auto
  from p1 p2 p3 r show ?thesis by (simp add: parse_markdown_def)
qed

theorem summary_last_run_witness:
  "\<exists>r. parse_markdown ''# Jane Doe\<newline>## Professional Summary\<newline>Builds apps.\<newline>Ships them.\<newline>\<newline>Leads teams.\<newline>Mentors.\<newline>## Core Skills\<newline>- Swift'' = Inr r \<and>
     summary r = ''Leads teams. Mentors.''"
proof -
  let ?md = "''# Jane Doe\<newline>## Professional Summary\<newline>Builds apps.\<newline>Ships them.\<newline>\<newline>Leads teams.\<newline>Mentors.\<newline>## Core Skills\<newline>- Swift''"
  let ?sect = "[''Builds apps.'', ''Ships them.'', [], ''Leads teams.'', ''Mentors.'']"
  let ?rest = "[''## Core Skills'', ''- Swift'']"
  have 1: "splitlines ?md = [''# Jane Doe''] @ [''## Professional Summary''] @ ?sect @ ?rest"
    by code_simp
  have 2: "summary_heading ''## Professional Summary''" by code_simp
  have 3: "\<forall>l\<in>set ?sect. is_blank l \<or> plain_line (strip l)" by code_simp
  have 4: "\<exists>l\<in>set ?sect. \<not> is_blank l" by code_simp
  have 5: "?rest = [] \<or> startswith ''## '' (strip (hd ?rest))" by code_simp
  have 6: "\<forall>l\<in>set ?rest. \<not> summary_heading l" by code_simp
  have 7: "join '' '' (map strip (last (runs ?sect))) = ''Leads teams. Mentors.''" by code_simp
  show ?thesis
    using summary_last_run [OF 1 2 3 4 5 6] unfolding 7 .
qed

text \<open>
  Claim C3 as stated fails: of two runs in the summary section the second is kept, not
  the first.
\<close>

theorem summary_second_run_replaces_first:
  "parse_markdown ''## Professional Summary\<newline>First run.\<newline>\<newline>Second run.'' =
     Inr (empty_data\<lparr>summary := ''Second run.''\<rparr>)"
  by code_simp

section \<open>Escaped text in the document\<close>

lemma html_escape_append: "html_escape (a @ b) = html_escape a @ html_escape b"
  by (simp add: html_escape_def)

lemma html_escape_Nil [simp]: "html_escape [] = []"
  by (simp add: html_escape_def)

lemma html_escape_chars:
  "c \<in> set (html_escape s) \<Longrightarrow> c \<noteq> CHR ''<'' \<and> c \<noteq> CHR ''>'' \<and> c \<noteq> CHR 0x22 \<and> c \<noteq> CHR 0x27"
  by (auto simp: html_escape_def escape_char_def split: if_splits)

lemma no_script_Nil: "no_script []"
  by (simp add: no_script_def)

lemma no_script_append: "no_script a \<Longrightarrow> no_script b \<Longrightarrow> no_script (a @ b)"
  by (simp add: no_script_def scan_append)

lemma no_script_escape: "no_script (html_escape s)"
  unfolding no_script_def
proof (rule scan_clean)
  show "''<script>'' \<noteq> []" by simp
  show "hd ''<script>'' \<notin> set (html_escape s)" using html_escape_chars [of "CHR ''<''" s] by auto
qed

lemma no_script_concat: "\<forall>x\<in>set xs. no_script x \<Longrightarrow> no_script (concat xs)"
  by (induction xs) (simp_all add: no_script_Nil no_script_append)

lemma no_script_join:
  "no_script sep \<Longrightarrow> \<forall>x\<in>set xs. no_script x \<Longrightarrow> no_script (join sep xs)"
  by (induction sep xs rule: join.induct) (simp_all add: no_script_Nil no_script_append)

lemma no_script_not_contains: "no_script s \<Longrightarrow> \<not> contains ''<script>'' s"
proof
  assume n: "no_script s" and c: "contains ''<script>'' s"
  have "scan ''<script>'' ''<script>'' s = []"
    using c by (rule scan_found) simp_all
  with n show False by (simp add: no_script_def)
qed

lemma no_script_concat_map: "(\<And>x. no_script (f x)) \<Longrightarrow> no_script (concat (map f xs))"
  by (induction xs) (simp_all add: no_script_Nil no_script_append)

lemma no_script_if: "no_script a \<Longrightarrow> no_script b \<Longrightarrow> no_script (if c then a else b)"
  by simp

lemma no_script_tpl_open: "no_script tpl_open"
  unfolding tpl_open_def by (intro no_script_append; code_simp)

lemma no_script_tpl_style: "no_script tpl_style"
  unfolding tpl_style_def by (intro no_script_append; code_simp)

lemma no_script_tpl_photo_alt: "no_script tpl_photo_alt"
  by code_simp

lemma no_script_tpl_photo_close: "no_script tpl_photo_close"
  unfolding tpl_photo_close_def by (intro no_script_append; code_simp)

lemma no_script_tpl_name_close: "no_script tpl_name_close"
  unfolding tpl_name_close_def by (intro no_script_append; code_simp)

lemma no_script_tpl_role_close: "no_script tpl_role_close"
  unfolding tpl_role_close_def by (intro no_script_append; code_simp)

lemma no_script_tpl_contacts_close: "no_script tpl_contacts_close"
  unfolding tpl_contacts_close_def by (intro no_script_append; code_simp)

lemma no_script_tpl_headline: "no_script tpl_headline"
  unfolding tpl_headline_def by (intro no_script_append; code_simp)

lemma no_script_tpl_headline_close: "no_script tpl_headline_close"
  unfolding tpl_headline_close_def by (intro no_script_append; code_simp)

lemma no_script_tpl_summary_close: "no_script tpl_summary_close"
  unfolding tpl_summary_close_def by (intro no_script_append; code_simp)

lemma no_script_tpl_experience_close: "no_script tpl_experience_close"
  unfolding tpl_experience_close_def by (intro no_script_append; code_simp)

lemma no_script_tpl_projects_close: "no_script tpl_projects_close"
  unfolding tpl_projects_close_def by (intro no_script_append; code_simp)

lemma no_script_tpl_close: "no_script tpl_close"
  unfolding tpl_close_def by (intro no_script_append; code_simp)

lemma no_script_item_open: "no_script item_open"
  unfolding item_open_def by (intro no_script_append; code_simp)

lemma no_script_item_title_close: "no_script item_title_close"
  unfolding item_title_close_def by (intro no_script_append; code_simp)

lemma no_script_item_meta_close: "no_script item_meta_close"
  unfolding item_meta_close_def by (intro no_script_append; code_simp)

lemma no_script_item_sub_close: "no_script item_sub_close"
  unfolding item_sub_close_def by (intro no_script_append; code_simp)

lemma no_script_item_close: "no_script item_close"
  unfolding item_close_def by (intro no_script_append; code_simp)

lemma no_script_li: "no_script (li xs)"
proof -
  have a: "no_script ''<li>''" and b: "no_script ''</li>''" by code_simp+
  show ?thesis
    unfolding li_def
    by (intro no_script_concat_map no_script_append no_script_escape a b)
qed

lemma no_script_item_block: "no_script (item_block it)"
proof -
  have a: "no_script ''<p class='sub'>''" and b: "no_script ''</p>''" by code_simp+
  have s: "no_script (if subtitle it \<noteq> [] then ''<p class='sub'>'' @ html_escape (subtitle it) @ ''</p>'' else [])"
    by (intro no_script_if no_script_append no_script_escape a b no_script_Nil)
  show ?thesis
    unfolding item_block_def
    by (intro no_script_append no_script_escape no_script_li s no_script_item_open
        no_script_item_title_close no_script_item_meta_close no_script_item_sub_close
        no_script_item_close)
qed

lemma no_script_items: "no_script (items its)"
proof -
  have n: "no_script ''\<newline>''" by code_simp
  show ?thesis
    unfolding items_def by (intro no_script_join n) (simp add: no_script_item_block)
qed

lemma no_script_contacts: "no_script (concat (map (\<lambda>c. ''<p>'' @ html_escape c @ ''</p>'') cs))"
proof -
  have a: "no_script ''<p>''" and b: "no_script ''</p>''" by code_simp+
  show ?thesis
    by (intro no_script_concat_map no_script_append no_script_escape a b)
qed

lemma no_script_fit_boxes: "no_script (fit_boxes d)"
proof -
  have a: "no_script ''<div class='fit'><strong>Fit</strong>''" and b: "no_script ''</div>''"
    by code_simp+
  show ?thesis
    unfolding fit_boxes_def
    by (intro no_script_concat_map no_script_append no_script_escape a b)
qed

lemma no_script_headline_right: "no_script (headline_right lbl)"
proof -
  have a: "no_script ''<p class='target'>''" and b: "no_script ''</p>''" by code_simp+
  show ?thesis
    unfolding headline_right_def
    by (intro no_script_if no_script_append no_script_escape a b no_script_Nil)
qed

lemma no_script_build_html: "no_script (build_html d img lbl)"
  unfolding build_html_def
  by (intro no_script_append no_script_escape no_script_li no_script_items no_script_contacts
      no_script_fit_boxes no_script_headline_right no_script_tpl_open no_script_tpl_style
      no_script_tpl_photo_alt no_script_tpl_photo_close no_script_tpl_name_close
      no_script_tpl_role_close no_script_tpl_contacts_close no_script_tpl_headline
      no_script_tpl_headline_close no_script_tpl_summary_close no_script_tpl_experience_close
      no_script_tpl_projects_close no_script_tpl_close)

lemma markup_append [simp]: "markup (a @ b) = markup a @ markup b"
  by (simp add: markup_def)

lemma markup_Nil [simp]: "markup [] = []"
  by (simp add: markup_def)

lemma markup_escape [simp]: "markup (html_escape s) = []"
  unfolding markup_def filter_empty_conv using html_escape_chars by blast

lemma markup_Cons [simp]:
  "markup (c # s) =
     (if c = CHR ''<'' \<or> c = CHR ''>'' \<or> c = CHR 0x22 \<or> c = CHR 0x27 then c # markup s
      else markup s)"
  by (simp add: markup_def)

lemma markup_concat_cong:
  "(\<And>x. markup (f x) = markup (g x)) \<Longrightarrow>
   markup (concat (map f xs)) = markup (concat (map g xs))"
  by (induction xs) simp_all

lemma markup_join:
  "map markup xs = map markup ys \<Longrightarrow> markup (join sep xs) = markup (join sep ys)"
proof (induction sep xs arbitrary: ys rule: join.induct)
  case (1 sep)
  then show ?case by simp
next
  case (2 sep x)
  then show ?case by (cases ys) auto
next
  case (3 sep x y zs)
  then obtain x' ys' where ys: "ys = x' # ys'" "markup x = markup x'"
    "map markup (y # zs) = map markup ys'"
    by (cases ys) auto
  then obtain y' zs' where ys': "ys' = y' # zs'" by (cases ys') auto
  have "markup (join sep (y # zs)) = markup (join sep ys')" using 3 ys by simp
  then show ?case using ys ys' by simp
qed

lemma markup_li: "markup (li xs) = markup (li (map (\<lambda>b. []) xs))"
proof -
  have "li (map (\<lambda>b. []) xs) = concat (map (\<lambda>x. ''<li>'' @ html_escape [] @ ''</li>'') xs)"
    by (simp add: li_def comp_def)
  moreover have "markup (li xs) = markup (concat (map (\<lambda>x. ''<li>'' @ html_escape [] @ ''</li>'') xs))"
    unfolding li_def by (rule markup_concat_cong) simp
  ultimately show ?thesis by simp
qed

lemma markup_item_block: "markup (item_block it) = markup (item_block (erase_item it))"
proof -
  have b: "bullets (erase_item it) = map (\<lambda>b. []) (bullets it)"
    and t: "title (erase_item it) = []" and m: "meta (erase_item it) = []"
    and s: "subtitle (erase_item it) = erase_text (subtitle it)"
    by (simp_all add: erase_item_def)
  have sub: "markup (if subtitle it \<noteq> [] then ''<p class='sub'>'' @ html_escape (subtitle it) @ ''</p>'' else []) =
      markup (if erase_text (subtitle it) \<noteq> []
              then ''<p class='sub'>'' @ html_escape (erase_text (subtitle it)) @ ''</p>'' else [])"
    by (simp add: erase_text_def)
  show ?thesis
    unfolding item_block_def b t m s markup_append markup_escape sub markup_li [of "bullets it"]
    by (rule refl)
qed

lemma markup_items: "markup (items its) = markup (items (map erase_item its))"
  unfolding items_def
  by (rule markup_join) (simp only: map_map comp_def markup_item_block [symmetric])

lemma take_map_const: "take n (map (\<lambda>x. c) xs) = map (\<lambda>x. c) (take n xs)"
  by (simp add: take_map)

lemma markup_contacts:
  "markup (concat (map (\<lambda>c. ''<p>'' @ html_escape c @ ''</p>'') (take 4 cs))) =
   markup (concat (map (\<lambda>c. ''<p>'' @ html_escape c @ ''</p>'') (take 4 (map (\<lambda>c. []) cs))))"
proof -
  have h1: "concat (map (\<lambda>c. ''<p>'' @ html_escape c @ ''</p>'') (take 4 (map (\<lambda>c. []) cs))) =
      concat (map (\<lambda>c. ''<p>'' @ html_escape [] @ ''</p>'') (take 4 cs))"
    by (simp only: take_map_const map_map comp_def)
  have h2: "markup (concat (map (\<lambda>c. ''<p>'' @ html_escape c @ ''</p>'') (take 4 cs))) =
      markup (concat (map (\<lambda>c. ''<p>'' @ html_escape [] @ ''</p>'') (take 4 cs)))"
    by (rule markup_concat_cong) simp
  show ?thesis unfolding h1 h2 by (rule refl)
qed

lemma markup_fit_boxes: "markup (fit_boxes d) = markup (fit_boxes (erase_data d))"
proof -
  have f: "fit (erase_data d) = map (\<lambda>p. []) (fit d)" by (simp add: erase_data_def)
  have h1: "fit_boxes (erase_data d) =
      concat (map (\<lambda>point. ''<div class='fit'><strong>Fit</strong>'' @ html_escape [] @ ''</div>'') (take 4 (fit d)))"
    unfolding fit_boxes_def f by (simp only: take_map_const map_map comp_def)
  have h2: "markup (fit_boxes d) =
      markup (concat (map (\<lambda>point. ''<div class='fit'><strong>Fit</strong>'' @ html_escape [] @ ''</div>'') (take 4 (fit d))))"
    unfolding fit_boxes_def by (rule markup_concat_cong) simp
  show ?thesis unfolding h1 h2 by (rule refl)
qed

lemma markup_headline_right: "markup (headline_right lbl) = markup (headline_right (erase_text lbl))"
  by (simp add: headline_right_def erase_text_def)

lemma markup_build_html:
  "markup (build_html d img lbl) = markup (build_html (erase_data d) [] (erase_text lbl))"
proof -
  have e: "name (erase_data d) = []" "role (erase_data d) = []" "summary (erase_data d) = []"
    "contacts (erase_data d) = map (\<lambda>c. []) (contacts d)"
    "skills (erase_data d) = map (\<lambda>s. []) (skills d)"
    "experience (erase_data d) = map erase_item (experience d)"
    "projects (erase_data d) = map erase_item (projects d)"
    by (simp_all add: erase_data_def)
  have l: "markup (li (take 12 (skills d))) = markup (li (take 12 (map (\<lambda>s. []) (skills d))))"
    unfolding take_map_const by (rule markup_li)
  show ?thesis
    unfolding build_html_def e markup_append markup_escape
      markup_contacts [of "contacts d"] markup_fit_boxes [of d] markup_headline_right [of lbl] l
      markup_items [of "experience d"] markup_items [of "projects d"]
    by (rule refl)
qed

lemma startswith_appendI:
  assumes "startswith p a"
  shows "startswith p (a @ b)"
proof -
  obtain t where "a = p @ t" using assms startswith_append by blast
  then have "a @ b = p @ (t @ b)" by simp
  then show ?thesis using startswith_append by blast
qed

lemma tpl_open_doctype: "startswith ''<!doctype html>'' tpl_open"
proof -
  have "startswith ''<!doctype html>'' ''<!doctype html>\<newline>''" by code_simp
  then show ?thesis unfolding tpl_open_def by (intro startswith_appendI)
qed

lemma html_escape_no_markup:
  "\<forall>c\<in>set (html_escape s). c \<noteq> CHR ''<'' \<and> c \<noteq> CHR ''>'' \<and> c \<noteq> CHR 0x22 \<and> c \<noteq> CHR 0x27"
proof
  fix c assume "c \<in> set (html_escape s)"
  then show "c \<noteq> CHR ''<'' \<and> c \<noteq> CHR ''>'' \<and> c \<noteq> CHR 0x22 \<and> c \<noteq> CHR 0x27"
    by (rule html_escape_chars)
qed

lemma build_html_doctype: "startswith ''<!doctype html>'' (build_html d img lbl)"
  unfolding build_html_def by (intro startswith_appendI tpl_open_doctype)

lemma build_html_no_script: "\<not> contains ''<script>'' (build_html d img lbl)"
  by (intro no_script_not_contains no_script_build_html)

lemma escape_script:
  assumes "contains ''<script>'' s"
  shows "contains ''&lt;script&gt;'' (html_escape s)"
proof -
  obtain u v where "s = u @ ''<script>'' @ v" using assms contains_iff by blast
  moreover have "html_escape ''<script>'' = ''&lt;script&gt;''" by code_simp
  ultimately have "html_escape s = html_escape u @ ''&lt;script&gt;'' @ html_escape v"
    by (simp only: html_escape_append)
  then show ?thesis using contains_iff by blast
qed

lemma build_html_name:
  "contains p (html_escape (name d)) \<Longrightarrow> contains p (build_html d img lbl)"
  unfolding build_html_def by (intro contains_appendI2 [of _ _ tpl_open] contains_appendI1)

text \<open>
  Claim C2. For every record and every pair of argument strings: an escaped text holds
  none of the characters \<^verbatim>\<open>< > " '\<close>; the markup characters of the document are those
  of the document for the record with its text erased, so no field, label or image URI
  adds or removes one, while the markup of the template stands as written; the document
  never holds the raw substring \<^verbatim>\<open><script>\<close>; and a name that holds it gives a
  document that holds \<^verbatim>\<open>&lt;script&gt;\<close>.
\<close>

theorem build_html_escapes:
  "(\<forall>c\<in>set (html_escape s). c \<noteq> CHR ''<'' \<and> c \<noteq> CHR ''>'' \<and> c \<noteq> CHR 0x22 \<and> c \<noteq> CHR 0x27) \<and>
   markup (build_html d profile_image target_label) =
     markup (build_html (erase_data d) [] (erase_text target_label)) \<and>
   startswith ''<!doctype html>'' (build_html d profile_image target_label) \<and>
   \<not> contains ''<script>'' (build_html d profile_image target_label) \<and>
   (contains ''<script>'' (name d) \<longrightarrow>
      contains ''&lt;script&gt;'' (build_html d profile_image target_label))"
proof (intro conjI impI)
  show "\<forall>c\<in>set (html_escape s). c \<noteq> CHR ''<'' \<and> c \<noteq> CHR ''>'' \<and> c \<noteq> CHR 0x22 \<and> c \<noteq> CHR 0x27"
    by (rule html_escape_no_markup)
  show "markup (build_html d profile_image target_label) =
     markup (build_html (erase_data d) [] (erase_text target_label))"
    by (rule markup_build_html)
  show "startswith ''<!doctype html>'' (build_html d profile_image target_label)"
    by (rule build_html_doctype)
  show "\<not> contains ''<script>'' (build_html d profile_image target_label)"
    by (rule build_html_no_script)
  assume "contains ''<script>'' (name d)"
  then show "contains ''&lt;script&gt;'' (build_html d profile_image target_label)"
    by (intro build_html_name escape_script)
qed

theorem build_html_escapes_witness:
  "contains ''<script>'' (name (empty_data\<lparr>name := ''<script>alert(1)</script>''\<rparr>)) \<and>
   contains ''&lt;script&gt;'' (build_html (empty_data\<lparr>name := ''<script>alert(1)</script>''\<rparr>) [] []) \<and>
   \<not> contains ''<script>'' (build_html (empty_data\<lparr>name := ''<script>alert(1)</script>''\<rparr>) [] [])"
proof -
  have c: "contains ''<script>'' (name (empty_data\<lparr>name := ''<script>alert(1)</script>''\<rparr>))"
    by code_simp
  note t = build_html_escapes [of "[]" "empty_data\<lparr>name := ''<script>alert(1)</script>''\<rparr>" "[]" "[]"]
  from t have n: "\<not> contains ''<script>'' (build_html (empty_data\<lparr>name := ''<script>alert(1)</script>''\<rparr>) [] [])"
    by (elim conjE)
  from t c have p: "contains ''&lt;script&gt;'' (build_html (empty_data\<lparr>name := ''<script>alert(1)</script>''\<rparr>) [] [])"
    by (elim conjE impE)
  from c p n show ?thesis by (intro conjI)
qed

end
